theory Spec2Isabelle
  imports Main "HOL-Library.Word"
begin

unbundle bit_operations_syntax

section \<open>The semantic model read by the Rust emitter\<close>

text \<open>
  The structures of \<^verbatim>\<open>lcmgen.h\<close> as far as \<^verbatim>\<open>emit_rust.c\<close> reads them. A C string is
  a \<^typ>\<open>string\<close>: its characters before the terminating NUL. The field \<^verbatim>\<open>size\<close> of a
  dimension is named \<open>size_dim\<close> here and the field \<^verbatim>\<open>type\<close> of a member \<open>type_m\<close>;
  comments and constants play no part in the four routines of the \<^verbatim>\<open>Message\<close>
  implementation and are left out.
\<close>

record lcm_typename =
  lctypename :: string
  package :: string
  shortname :: string

datatype lcm_dimension_mode = LCM_CONST | LCM_VAR

record lcm_dimension =
  mode :: lcm_dimension_mode
  size_dim :: string

record lcm_member =
  type_m :: lcm_typename
  membername :: string
  dimensions :: "lcm_dimension list"

record lcm_struct =
  structname :: lcm_typename
  members :: "lcm_member list"
  hash :: "64 word"

section \<open>Identifier transforms\<close>

text \<open>
  \<^verbatim>\<open>toupper\<close> and \<^verbatim>\<open>tolower\<close> of \<^verbatim>\<open>ctype.h\<close> in the C locale (the generator never
  changes the locale): the 26 ASCII letters change case, every other character is
  returned as it is.
\<close>

definition toupper :: "char \<Rightarrow> char" where
  "toupper c =
     (case map_of (zip ''abcdefghijklmnopqrstuvwxyz'' ''ABCDEFGHIJKLMNOPQRSTUVWXYZ'') c of
        None \<Rightarrow> c
      | Some u \<Rightarrow> u)"

definition tolower :: "char \<Rightarrow> char" where
  "tolower c =
     (case map_of (zip ''ABCDEFGHIJKLMNOPQRSTUVWXYZ'' ''abcdefghijklmnopqrstuvwxyz'') c of
        None \<Rightarrow> c
      | Some l \<Rightarrow> l)"

text \<open>
  \<^verbatim>\<open>strip_underscore_t\<close> (emit_rust.c, lines 55 to 67): a copy of the name, cut two
  characters short when it has at least two characters and ends in \<^verbatim>\<open>_t\<close>.
\<close>

definition strip_underscore_t :: "string \<Rightarrow> string" where
  "strip_underscore_t name =
     (let result = name; len = length result in
      if len < 2 then result
      else if result ! (len - 2) = CHR ''_'' \<and> result ! (len - 1) = CHR ''t''
        then take (len - 2) result
        else result)"

text \<open>
  The loop of \<^verbatim>\<open>make_rust_type_name\<close> in emit_rust.c (lines 139 to 154). It works in
  place: the read pointer \<open>c\<close> and the write pointer \<open>result_char\<close> walk the same buffer
  \<open>result\<close>, both given here as offsets from its start. The loop ends at the terminating
  NUL, that is at offset \<open>length result\<close>; the final \<^verbatim>\<open>*result_char = 0\<close> cuts the
  string at the write pointer. From the start (both offsets 0) the write pointer never
  passes the read pointer, so every write falls inside the buffer, on a character that
  has been read already.
\<close>

function camel_case_in_place :: "string \<Rightarrow> nat \<Rightarrow> nat \<Rightarrow> bool \<Rightarrow> string" where
  "camel_case_in_place result c result_char capitalize_next_char =
     (if c < length result then
        (if result ! c = CHR ''_''
           then camel_case_in_place result (c + 1) result_char True
         else if capitalize_next_char
           then camel_case_in_place (result[result_char := toupper (result ! c)])
                  (c + 1) (result_char + 1) False
           else camel_case_in_place (result[result_char := tolower (result ! c)])
                  (c + 1) (result_char + 1) False)
      else take result_char result)"
  by pat_completeness auto
termination
  by (relation "measure (\<lambda>(result, c, result_char, capitalize_next_char). length result - c)")
    auto

text \<open>\<^verbatim>\<open>make_rust_type_name\<close> of emit_rust.c (lines 135 to 157).\<close>

definition make_rust_type_name :: "lcm_typename \<Rightarrow> string" where
  "make_rust_type_name typename =
     camel_case_in_place (strip_underscore_t (shortname typename)) 0 0 True"

text \<open>
  The loop of the earlier \<^verbatim>\<open>make_rust_type_name\<close> in src/unnamed/part_000 (lines 33 to
  49): it reads \<open>input\<close> and writes into \<open>result\<close>, a separate copy made by
  \<^verbatim>\<open>strdup\<close>; a character that is not capitalized is copied unchanged.
\<close>

function camel_case_copy :: "string \<Rightarrow> string \<Rightarrow> nat \<Rightarrow> nat \<Rightarrow> bool \<Rightarrow> string" where
  "camel_case_copy input result c result_char capitalize_next_char =
     (if c < length input then
        (if input ! c = CHR ''_''
           then camel_case_copy input result (c + 1) result_char True
         else if capitalize_next_char
           then camel_case_copy input (result[result_char := toupper (input ! c)])
                  (c + 1) (result_char + 1) False
           else camel_case_copy input (result[result_char := input ! c])
                  (c + 1) (result_char + 1) False)
      else take result_char result)"
  by pat_completeness auto
termination
  by (relation "measure (\<lambda>(input, result, c, result_char, capitalize_next_char). length input - c)")
    auto

text \<open>\<^verbatim>\<open>make_rust_type_name\<close> of src/unnamed/part_000 (lines 31 to 51).\<close>

definition make_rust_type_name_part_000 :: "string \<Rightarrow> string" where
  "make_rust_type_name_part_000 input = camel_case_copy input input 0 0 True"

text \<open>
  The two loops without the buffers: \<open>camel_case rest cap s\<close> drops every underscore of
  \<open>s\<close>, capitalizes a character that follows an underscore (or comes first when \<open>cap\<close>
  holds) and applies \<open>rest\<close> to every other character.
\<close>

fun camel_case :: "(char \<Rightarrow> char) \<Rightarrow> bool \<Rightarrow> string \<Rightarrow> string" where
  "camel_case rest cap [] = []"
| "camel_case rest cap (c # cs) =
     (if c = CHR ''_'' then camel_case rest True cs
      else (if cap then toupper c else rest c) # camel_case rest False cs)"

text \<open>
  The transform as the specification words it (section 4.1, \<open>toUpperCamel\<close>): split on
  underscore, capitalize the first letter of each segment, lower-case the remainder,
  concatenate with no separator.
\<close>

fun split_underscore :: "string \<Rightarrow> string list" where
  "split_underscore [] = [[]]"
| "split_underscore (c # cs) =
     (if c = CHR ''_'' then [] # split_underscore cs
      else (case split_underscore cs of
              [] \<Rightarrow> [[c]]
            | seg # segs \<Rightarrow> (c # seg) # segs))"

fun capitalize_segment :: "string \<Rightarrow> string" where
  "capitalize_segment [] = []"
| "capitalize_segment (c # cs) = toupper c # map tolower cs"

definition to_upper_camel :: "string \<Rightarrow> string" where
  "to_upper_camel identifier = concat (map capitalize_segment (split_underscore identifier))"

text \<open>Whether a name is one that \<^const>\<open>strip_underscore_t\<close> shortens.\<close>

definition has_underscore_t_suffix :: "string \<Rightarrow> bool" where
  "has_underscore_t_suffix name =
     (2 \<le> length name \<and> name ! (length name - 2) = CHR ''_'' \<and> name ! (length name - 1) = CHR ''t'')"

text \<open>
  Whether every character of \<open>s\<close> that the loops do not capitalize is one that
  \<^const>\<open>tolower\<close> leaves alone (\<open>cap\<close> as in \<^const>\<open>camel_case\<close>).
\<close>

fun lower_case_rest :: "bool \<Rightarrow> string \<Rightarrow> bool" where
  "lower_case_rest cap [] = True"
| "lower_case_rest cap (c # cs) =
     (if c = CHR ''_'' then lower_case_rest True cs
      else (cap \<or> tolower c = c) \<and> lower_case_rest False cs)"

section \<open>Type names\<close>

text \<open>\<^verbatim>\<open>map_lcm_primitive\<close> (emit_rust.c, lines 189 to 231); \<open>None\<close> is the NULL result.\<close>

definition map_lcm_primitive :: "string \<Rightarrow> string option" where
  "map_lcm_primitive typename =
     (if typename = ''boolean'' then Some ''bool''
      else if typename = ''string'' then Some ''String''
      else if typename = ''byte'' then Some ''u8''
      else if typename = ''int8_t'' then Some ''i8''
      else if typename = ''int16_t'' then Some ''i16''
      else if typename = ''int32_t'' then Some ''i32''
      else if typename = ''int64_t'' then Some ''i64''
      else if typename = ''uint8_t'' then Some ''u8''
      else if typename = ''uint16_t'' then Some ''u16''
      else if typename = ''uint32_t'' then Some ''u32''
      else if typename = ''uint64_t'' then Some ''u64''
      else if typename = ''float'' then Some ''f32''
      else if typename = ''double'' then Some ''f64''
      else None)"

text \<open>\<^verbatim>\<open>map_type_name\<close> (emit_rust.c, lines 233 to 241).\<close>

definition map_type_name :: "lcm_typename \<Rightarrow> string" where
  "map_type_name typename =
     (case map_lcm_primitive (shortname typename) of
        Some t \<Rightarrow> t
      | None \<Rightarrow> make_rust_type_name typename)"

text \<open>
  Modelled from the spec: \<^verbatim>\<open>lcm_is_primitive_type\<close>, which emit_rust.c calls and
  lcmgen.c (not among the sources) defines. Section 3 of the specification lists the
  primitive type names: boolean, byte, the signed and unsigned integers of 8 to 64 bits,
  float, double and string; they are spelled here as \<^const>\<open>map_lcm_primitive\<close> spells
  them. The emitters below take the predicate as the parameter \<open>is_primitive\<close>; this
  constant only instantiates it where a routine is evaluated on a concrete struct.
\<close>

definition lcm_is_primitive_type :: "string \<Rightarrow> bool" where
  "lcm_is_primitive_type t =
     (t \<in> set [''boolean'', ''byte'', ''int8_t'', ''int16_t'', ''int32_t'', ''int64_t'',
                ''uint8_t'', ''uint16_t'', ''uint32_t'', ''uint64_t'', ''float'', ''double'',
                ''string''])"

section \<open>Text output\<close>

text \<open>
  The macros of emit_rust.c, lines 12 to 17. Each emitter below returns the text it
  appends to the output file, so a sequence of calls is a concatenation. A format
  string with its \<^verbatim>\<open>%s\<close> filled in is written as the concatenated string.
\<close>

definition INDENT :: "nat \<Rightarrow> nat" where
  "INDENT n = 4 * n"

definition emit_start :: "nat \<Rightarrow> string \<Rightarrow> string" where
  "emit_start n s = replicate (INDENT n) CHR '' '' @ s"

definition emit_continue :: "string \<Rightarrow> string" where
  "emit_continue s = s"

definition emit_end :: "string \<Rightarrow> string" where
  "emit_end s = s @ [CHR 0x0A]"

definition emit :: "nat \<Rightarrow> string \<Rightarrow> string" where
  "emit n s = replicate (INDENT n) CHR '' '' @ s @ [CHR 0x0A]"

text \<open>
  The conversion \<^verbatim>\<open>%016\<close> with \<^verbatim>\<open>PRIx64\<close> of line 408: sixteen lower-case
  hexadecimal digits.
\<close>

definition hex_digit :: "nat \<Rightarrow> char" where
  "hex_digit n = ''0123456789abcdef'' ! n"

definition format_016x :: "64 word \<Rightarrow> string" where
  "format_016x w =
     map (\<lambda>i. hex_digit (unat (drop_bit (4 * i) w AND 15)))
       [15, 14, 13, 12, 11, 10, 9, 8, 7, 6, 5, 4, 3, 2, 1, 0]"

section \<open>The hash routine\<close>

text \<open>
  \<^verbatim>\<open>emit_impl_message_hash\<close> (emit_rust.c, lines 405 to 424). The loop over the members
  is \<open>emit_hash_members\<close>; \<^verbatim>\<open>strcmp\<close> is non-zero exactly when the two names differ.
\<close>

fun emit_hash_members :: "(string \<Rightarrow> bool) \<Rightarrow> lcm_struct \<Rightarrow> lcm_member list \<Rightarrow> string" where
  "emit_hash_members is_primitive lcm_struct [] = []"
| "emit_hash_members is_primitive lcm_struct (lm # rest) =
     (let tn = lctypename (type_m lm) in
      if \<not> is_primitive tn \<and> tn \<noteq> lctypename (structname lcm_struct)
        then emit 3 (''.wrapping_add('' @ map_type_name (type_m lm) @ ''::hash())'')
        else [])
     @ emit_hash_members is_primitive lcm_struct rest"

definition emit_impl_message_hash :: "(string \<Rightarrow> bool) \<Rightarrow> lcm_struct \<Rightarrow> string" where
  "emit_impl_message_hash is_primitive lcm_struct =
     emit 1 ''fn hash() -> u64 {'' @
     emit 2 ''let hash = {'' @
     emit 3 (''0x'' @ format_016x (hash lcm_struct) @ ''u64'') @
     emit_hash_members is_primitive lcm_struct (members lcm_struct) @
     emit 2 ''};'' @
     emit 2 ''(hash << 1) + ((hash >> 63) & 1)'' @
     emit 1 ''}'' @
     emit 0 ''''"

text \<open>
  What the emitted routine computes. \<open>references_struct\<close> is the condition of line 413;
  \<open>hash_terms\<close> lists, in order, the Rust type names \<open>T\<close> of the emitted lines
  \<^verbatim>\<open>.wrapping_add(T::hash())\<close>. The block \<^verbatim>\<open>let hash = { ... }\<close> is the base hash with
  these terms added one after the other, \<^verbatim>\<open>wrapping_add\<close> being addition modulo \<open>2^64\<close>;
  \<open>type_hash T\<close> stands for the value of \<^verbatim>\<open>T::hash()\<close>, a routine of another generated
  file. The last line, \<^verbatim>\<open>(hash << 1) + ((hash >> 63) & 1)\<close>, is
  \<open>published_fingerprint\<close>: on \<^verbatim>\<open>u64\<close> the shift right is logical. The earlier generation
  (src/unnamed/part_000, lines 240 to 243) emits the same expression for an \<^verbatim>\<open>i64\<close>,
  where the shift right is arithmetic: \<open>published_fingerprint_i64\<close>.
\<close>

definition references_struct :: "(string \<Rightarrow> bool) \<Rightarrow> lcm_struct \<Rightarrow> lcm_member \<Rightarrow> bool" where
  "references_struct is_primitive lcm_struct lm =
     (\<not> is_primitive (lctypename (type_m lm))
      \<and> lctypename (type_m lm) \<noteq> lctypename (structname lcm_struct))"

definition hash_terms :: "(string \<Rightarrow> bool) \<Rightarrow> lcm_struct \<Rightarrow> string list" where
  "hash_terms is_primitive lcm_struct =
     map (\<lambda>lm. map_type_name (type_m lm))
       (filter (references_struct is_primitive lcm_struct) (members lcm_struct))"

definition composed_hash :: "(string \<Rightarrow> 64 word) \<Rightarrow> (string \<Rightarrow> bool) \<Rightarrow> lcm_struct \<Rightarrow> 64 word" where
  "composed_hash type_hash is_primitive lcm_struct =
     foldl (\<lambda>h t. h + type_hash t) (hash lcm_struct) (hash_terms is_primitive lcm_struct)"

definition published_fingerprint :: "64 word \<Rightarrow> 64 word" where
  "published_fingerprint h = push_bit 1 h + (drop_bit 63 h AND 1)"

definition published_fingerprint_i64 :: "64 word \<Rightarrow> 64 word" where
  "published_fingerprint_i64 h = push_bit 1 h + (signed_drop_bit 63 h AND 1)"

definition message_hash :: "(string \<Rightarrow> 64 word) \<Rightarrow> (string \<Rightarrow> bool) \<Rightarrow> lcm_struct \<Rightarrow> 64 word" where
  "message_hash type_hash is_primitive lcm_struct =
     published_fingerprint (composed_hash type_hash is_primitive lcm_struct)"

text \<open>
  The composed hash as section 4.2 of the specification words it: the base hash plus
  the hash of every distinct struct type referenced as a member's base type, each added
  once.
\<close>

definition spec_composed_hash :: "(string \<Rightarrow> 64 word) \<Rightarrow> (string \<Rightarrow> bool) \<Rightarrow> lcm_struct \<Rightarrow> 64 word" where
  "spec_composed_hash type_hash is_primitive lcm_struct =
     hash lcm_struct
     + sum_list (map (\<lambda>t. type_hash (map_type_name t))
         (remdups (map type_m
            (filter (references_struct is_primitive lcm_struct) (members lcm_struct)))))"

text \<open>The struct with the dimensions of every member replaced.\<close>

definition with_dimensions :: "(lcm_member \<Rightarrow> lcm_dimension list) \<Rightarrow> lcm_struct \<Rightarrow> lcm_struct" where
  "with_dimensions f lcm_struct =
     lcm_struct\<lparr>members := map (\<lambda>lm. lm\<lparr>dimensions := f lm\<rparr>) (members lcm_struct)\<rparr>"

section \<open>The encode and size routines: emitted text\<close>

text \<open>
  \<^verbatim>\<open>emit_impl_message_encode\<close> (emit_rust.c, lines 426 to 453). \<open>encode_open_loops\<close> is the
  loop of lines 434 to 444 from dimension \<open>d\<close> on, \<open>encode_close_loops\<close> the loop of
  lines 446 to 448, \<open>emit_encode_member\<close> the body of the loop over the members. The
  character \<open>0x22\<close> is the double quote.
\<close>

fun encode_open_loops :: "nat \<Rightarrow> lcm_dimension list \<Rightarrow> string" where
  "encode_open_loops d [] = []"
| "encode_open_loops d (dimension # rest) =
     (if mode dimension = LCM_VAR then
        emit (2 + d) (''if self.'' @ size_dim dimension @ '' as usize > item.len() {'') @
        emit (2 + d + 1)
          (''return Err(Error::new(ErrorKind::Other, '' @ [CHR 0x22] @ ''Size is larger than vector''
             @ [CHR 0x22] @ ''));'') @
        emit (2 + d) ''};'' @
        emit (2 + d) (''for item in item.iter().take(self.'' @ size_dim dimension @ '' as usize) {'')
      else
        emit (2 + d) ''for item in item.iter() {'')
     @ encode_open_loops (d + 1) rest"

definition encode_close_loops :: "nat \<Rightarrow> string" where
  "encode_close_loops ndim = concat (map (\<lambda>d. emit (2 + d) ''}'') (rev [0..<ndim]))"

definition emit_encode_member :: "lcm_member \<Rightarrow> string" where
  "emit_encode_member member =
     (let ndim = length (dimensions member) in
      emit 2 (''let item = &self.'' @ membername member @ '';'') @
      encode_open_loops 0 (dimensions member) @
      emit (2 + ndim) ''item.encode(&mut buffer)?;'' @
      encode_close_loops ndim)"

definition emit_impl_message_encode :: "lcm_struct \<Rightarrow> string" where
  "emit_impl_message_encode lcm_struct =
     (let n_members = length (members lcm_struct) in
      emit 1 (''fn encode(&self, '' @ (if n_members \<noteq> 0 then ''mut buffer'' else ''_'')
              @ '': &mut Write) -> Result<()> {'') @
      concat (map emit_encode_member (members lcm_struct)) @
      emit 2 ''Ok(())'' @
      emit 1 ''}'' @
      emit 0 '''')"

text \<open>\<^verbatim>\<open>emit_impl_message_size\<close> (emit_rust.c, lines 524 to 546).\<close>

definition emit_size_member :: "lcm_member \<Rightarrow> string" where
  "emit_size_member member =
     (let ndim = length (dimensions member) in
      emit_start 2 (''+ self.'' @ membername member) @
      (if ndim > 0 then
         concat (map (\<lambda>d. if d = 0 then emit_continue ''.iter()''
                           else emit_continue ''.flat_map(IntoIterator::into_iter)'') [0..<ndim]) @
         emit_end ''.map(Message::size).sum::<usize>()''
       else emit_end ''.size()''))"

definition emit_impl_message_size :: "lcm_struct \<Rightarrow> string" where
  "emit_impl_message_size lcm_struct =
     emit 1 ''fn size(&self) -> usize {'' @
     emit 2 ''0'' @
     concat (map emit_size_member (members lcm_struct)) @
     emit 1 ''}''"

section \<open>The decode routine: emitted text\<close>

text \<open>
  The call of \<^verbatim>\<open>sscanf\<close> with the conversion \<^verbatim>\<open>%d\<close> in line 472: white space is skipped, a sign
  is optional, then the longest run of decimal digits is converted. \<open>None\<close> stands for the
  two cases in which C gives \<^verbatim>\<open>size\<close> no defined value: no digit is found (the variable
  stays uninitialized), or the number does not fit an \<^verbatim>\<open>int\<close>. \<open>loop_count\<close> is the
  number of rounds of \<^verbatim>\<open>for (int i = 0; i != size; ++i)\<close>, defined when \<^verbatim>\<open>size\<close> is
  defined and not negative.
\<close>

definition isspace :: "char \<Rightarrow> bool" where
  "isspace c = (c \<in> set [CHR '' '', CHR 0x09, CHR 0x0A, CHR 0x0B, CHR 0x0C, CHR 0x0D])"

definition isdigit :: "char \<Rightarrow> bool" where
  "isdigit c = (c \<in> set ''0123456789'')"

definition digit_value :: "char \<Rightarrow> nat" where
  "digit_value c =
     (case map_of (zip ''0123456789'' [0, 1, 2, 3, 4, 5, 6, 7, 8, 9]) c of
        None \<Rightarrow> 0
      | Some v \<Rightarrow> v)"

fun decimal_value :: "nat \<Rightarrow> string \<Rightarrow> nat" where
  "decimal_value acc [] = acc"
| "decimal_value acc (c # cs) = decimal_value (10 * acc + digit_value c) cs"

definition sscanf_d :: "string \<Rightarrow> int option" where
  "sscanf_d s =
     (let s1 = dropWhile isspace s;
          negative = (case s1 of [] \<Rightarrow> False | c # cs \<Rightarrow> c = CHR ''-'');
          s2 = (case s1 of [] \<Rightarrow> [] | c # cs \<Rightarrow> if c = CHR ''-'' \<or> c = CHR ''+'' then cs else s1);
          digits = takeWhile isdigit s2;
          v = (if negative then - int (decimal_value 0 digits) else int (decimal_value 0 digits))
      in if digits = [] then None
         else if - (2 ^ 31) \<le> v \<and> v < 2 ^ 31 then Some v
         else None)"

definition loop_count :: "string \<Rightarrow> nat option" where
  "loop_count s =
     (case sscanf_d s of
        None \<Rightarrow> None
      | Some n \<Rightarrow> if n < 0 then None else Some (nat n))"

text \<open>
  \<^verbatim>\<open>emit_impl_message_decode_recursive\<close> (emit_rust.c, lines 455 to 494), by the index
  \<open>dim\<close> as the source has it. The result is \<open>None\<close> where the C code has no defined
  behaviour: \<^const>\<open>loop_count\<close> undefined, or an index past the dimensions (which the
  call from \<open>dim = 0\<close> never reaches). With a count of zero the loop body, and so the
  recursive call, is never run.
\<close>

function emit_impl_message_decode_recursive :: "lcm_member \<Rightarrow> nat \<Rightarrow> string option" where
  "emit_impl_message_decode_recursive member dim =
     (if dim = length (dimensions member) then
        Some (emit_end '''' @
              emit_start (3 + dim) ''Message::decode(&mut buffer)'' @
              (if dim = 0 \<or> mode (dimensions member ! (dim - 1)) = LCM_CONST
                 then emit_continue ''?'' else []))
      else if length (dimensions member) < dim then None
      else
        (case mode (dimensions member ! dim) of
           LCM_CONST \<Rightarrow>
             (case loop_count (size_dim (dimensions member ! dim)) of
                None \<Rightarrow> None
              | Some n \<Rightarrow>
                  if n = 0 then Some (emit_continue ''['' @ emit_end '''' @ emit_start (2 + dim) '']'')
                  else
                    (case emit_impl_message_decode_recursive member (dim + 1) of
                       None \<Rightarrow> None
                     | Some element \<Rightarrow>
                         Some (emit_continue ''['' @
                               concat (replicate n (element @ emit_continue '','')) @
                               emit_end '''' @
                               emit_start (2 + dim) '']'')))
         | LCM_VAR \<Rightarrow>
             (case emit_impl_message_decode_recursive member (dim + 1) of
                None \<Rightarrow> None
              | Some body \<Rightarrow>
                  Some (emit_end '''' @
                        emit_start (3 + dim)
                          (''(0..'' @ size_dim (dimensions member ! dim) @ '').map(|_| {'') @
                        body @
                        emit_end '''' @
                        emit_start (3 + dim) ''}).collect::<Result<_>>()'' @
                        (if dim = 0 \<or> mode (dimensions member ! (dim - 1)) = LCM_CONST
                           then emit_continue ''?'' else [])))))"
  by pat_completeness auto
termination
  by (relation "measure (\<lambda>(member, dim). length (dimensions member) - dim)") auto

text \<open>
  \<^verbatim>\<open>emit_impl_message_decode\<close> (emit_rust.c, lines 496 to 522); \<open>emit_decode_member\<close> is
  the body of its first loop.
\<close>

definition emit_decode_member :: "lcm_member \<Rightarrow> string option" where
  "emit_decode_member member =
     (case emit_impl_message_decode_recursive member 0 of
        None \<Rightarrow> None
      | Some expr \<Rightarrow>
          Some (emit_start 2 (''let '' @ membername member @ '' = '') @
                expr @
                emit_end '';'' @
                emit 0 ''''))"

definition emit_impl_message_decode :: "lcm_struct \<Rightarrow> string option" where
  "emit_impl_message_decode lcm_struct =
     (let type_name = make_rust_type_name (structname lcm_struct);
          n_members = length (members lcm_struct)
      in case those (map emit_decode_member (members lcm_struct)) of
           None \<Rightarrow> None
         | Some lets \<Rightarrow>
             Some (emit 1 (''fn decode('' @ (if n_members \<noteq> 0 then ''mut buffer'' else ''_'')
                           @ '': &mut Read) -> Result<Self> {'') @
                   concat lets @
                   emit 2 (''Ok('' @ type_name @ '' {'') @
                   concat (map (\<lambda>member. emit 3 (membername member @ '': '' @ membername member @ '',''))
                             (members lcm_struct)) @
                   emit 2 ''})'' @
                   emit 1 ''}'' @
                   emit 0 ''''))"

section \<open>Values of the generated types\<close>

text \<open>
  The emitted routines are Rust, and what they compute is given here by functions that
  follow the emitted text line by line; the lemmas \<open>emit_encode_reading\<close>,
  \<open>emit_size_reading\<close> and \<open>emit_decode_reading\<close> below show that text for one struct.

  A field of the generated struct is an \<open>item\<close>: a leaf of the member's base type, or,
  for each dimension, a \<^verbatim>\<open>Vec\<close> or a fixed array of items (\<^verbatim>\<open>emit_struct_def\<close>, lines 344
  to 378). A value of the struct lists its fields in declaration order. A writer or
  reader is the list of bytes written or still to be read.

  The \<^verbatim>\<open>Message\<close> implementations of the leaf types are not among the sources (they
  are in the lcm crate for the primitive types and in other generated files for struct
  types), so they are a parameter \<open>P\<close>: \<open>leaf_encode\<close> gives the bytes a leaf writes or
  the error it returns, \<open>leaf_decode\<close> reads a leaf of the given type from the front of
  the input, \<open>leaf_size\<close> is its \<^verbatim>\<open>size()\<close>, \<open>leaf_has_type\<close> tells the values of a type
  and \<open>leaf_int\<close> gives the numeric value of a leaf of an integer type.
\<close>

type_synonym byte = "8 word"

text \<open>
  The ways a routine ends without a result: \<open>Size_larger_than_vector\<close> is the error
  returned in line 438; \<open>Leaf_error\<close> an error of a leaf's own routine, of the reader or
  of the writer; \<open>Not_valid_rust\<close> says that the emitted text is not a Rust routine for
  this struct (the compiler rejects it) or that the value is not of the generated type;
  \<open>Generator_undefined\<close> that the C code has no defined behaviour on this struct.
\<close>

datatype failure = Size_larger_than_vector | Leaf_error | Not_valid_rust | Generator_undefined

datatype 'a item = Leaf 'a | Seq "'a item list"

type_synonym 'a struct_value = "(string \<times> 'a item) list"

record 'a message_impls =
  leaf_encode :: "'a \<Rightarrow> failure + byte list"
  leaf_decode :: "lcm_typename \<Rightarrow> byte list \<Rightarrow> failure + ('a \<times> byte list)"
  leaf_size :: "'a \<Rightarrow> nat"
  leaf_int :: "'a \<Rightarrow> int option"
  leaf_has_type :: "lcm_typename \<Rightarrow> 'a \<Rightarrow> bool"

text \<open>
  The integer types of Rust that a size field can have hold values from \<open>- 2^63\<close> (the
  least \<^verbatim>\<open>i64\<close>) to \<open>2^64 - 1\<close> (the greatest \<^verbatim>\<open>u64\<close>). The cast \<^verbatim>\<open>as usize\<close> keeps the
  value modulo \<open>2^64\<close> (a target with 64-bit \<^verbatim>\<open>usize\<close>): a negative value becomes a
  count of at least \<open>2^63\<close>. \<open>field_int P self name\<close> is the value of the scalar integer
  field \<open>name\<close>.
\<close>

definition rust_int :: "'a message_impls \<Rightarrow> 'a \<Rightarrow> int option" where
  "rust_int P v =
     (case leaf_int P v of
        None \<Rightarrow> None
      | Some i \<Rightarrow> if - (2 ^ 63) \<le> i \<and> i < 2 ^ 64 then Some i else None)"

definition as_usize :: "int \<Rightarrow> nat" where
  "as_usize i = nat (i mod 2 ^ 64)"

definition field_int :: "'a message_impls \<Rightarrow> (string \<rightharpoonup> 'a item) \<Rightarrow> string \<Rightarrow> int option" where
  "field_int P self name =
     (case self name of
        Some (Leaf v) \<Rightarrow> rust_int P v
      | _ \<Rightarrow> None)"

section \<open>The encode routine\<close>

text \<open>
  One loop \<^verbatim>\<open>for item in ... { ... ?; }\<close>: the elements are written in order and the
  first error ends the routine. (Bytes written before an error stay in the writer; the
  result here is the error alone.)
\<close>

fun encode_seq :: "('x \<Rightarrow> failure + byte list) \<Rightarrow> 'x list \<Rightarrow> failure + byte list" where
  "encode_seq f [] = Inr []"
| "encode_seq f (x # xs) =
     (case f x of
        Inl e \<Rightarrow> Inl e
      | Inr b \<Rightarrow> (case encode_seq f xs of Inl e \<Rightarrow> Inl e | Inr bs \<Rightarrow> Inr (b @ bs)))"

text \<open>
  The nest of loops that \<^const>\<open>encode_open_loops\<close> emits for the dimensions of one
  member, applied to \<open>item\<close>. At a variable dimension the emitted lines are
  \<^verbatim>\<open>if self.n as usize > item.len() { return Err(...) };\<close> and
  \<^verbatim>\<open>for item in item.iter().take(self.n as usize) {\<close>; at a constant one
  \<^verbatim>\<open>for item in item.iter() {\<close>; innermost \<^verbatim>\<open>item.encode(&mut buffer)?;\<close>.
\<close>

fun encode_dims ::
  "'a message_impls \<Rightarrow> (string \<rightharpoonup> 'a item) \<Rightarrow> lcm_dimension list \<Rightarrow> 'a item \<Rightarrow> failure + byte list"
where
  "encode_dims P self [] (Leaf v) = leaf_encode P v"
| "encode_dims P self [] (Seq xs) = Inl Not_valid_rust"
| "encode_dims P self (dimension # rest) (Leaf v) = Inl Not_valid_rust"
| "encode_dims P self (dimension # rest) (Seq xs) =
     (if mode dimension = LCM_VAR then
        (case field_int P self (size_dim dimension) of
           None \<Rightarrow> Inl Not_valid_rust
         | Some n \<Rightarrow>
             if as_usize n > length xs then Inl Size_larger_than_vector
             else encode_seq (encode_dims P self rest) (take (as_usize n) xs))
      else encode_seq (encode_dims P self rest) xs)"

definition encode_member ::
  "'a message_impls \<Rightarrow> (string \<rightharpoonup> 'a item) \<Rightarrow> lcm_member \<Rightarrow> failure + byte list" where
  "encode_member P self member =
     (case self (membername member) of
        None \<Rightarrow> Inl Not_valid_rust
      | Some item \<Rightarrow> encode_dims P self (dimensions member) item)"

definition encode :: "'a message_impls \<Rightarrow> lcm_struct \<Rightarrow> 'a struct_value \<Rightarrow> failure + byte list" where
  "encode P lcm_struct x = encode_seq (encode_member P (map_of x)) (members lcm_struct)"

section \<open>The size routine\<close>

text \<open>
  For a member with dimensions the emitted expression is \<^verbatim>\<open>self.m.iter()\<close>, then one
  \<^verbatim>\<open>.flat_map(IntoIterator::into_iter)\<close> for every further dimension, then
  \<^verbatim>\<open>.map(Message::size).sum::<usize>()\<close>. \<open>into_iter_all\<close> is one \<^verbatim>\<open>flat_map\<close>: every
  element is itself a container and the elements of all of them follow one another.
  \<open>sum_sizes\<close> is the final sum (as a natural number: the total is the size of a
  message in memory, far below \<open>2^64\<close>).
\<close>

fun into_iter_all :: "'a item list \<Rightarrow> failure + 'a item list" where
  "into_iter_all [] = Inr []"
| "into_iter_all (Leaf v # rest) = Inl Not_valid_rust"
| "into_iter_all (Seq xs # rest) =
     (case into_iter_all rest of Inl e \<Rightarrow> Inl e | Inr ys \<Rightarrow> Inr (xs @ ys))"

fun flat_maps :: "nat \<Rightarrow> 'a item list \<Rightarrow> failure + 'a item list" where
  "flat_maps 0 xs = Inr xs"
| "flat_maps (Suc k) xs =
     (case into_iter_all xs of Inl e \<Rightarrow> Inl e | Inr ys \<Rightarrow> flat_maps k ys)"

fun sum_sizes :: "'a message_impls \<Rightarrow> 'a item list \<Rightarrow> failure + nat" where
  "sum_sizes P [] = Inr 0"
| "sum_sizes P (Seq xs # rest) = Inl Not_valid_rust"
| "sum_sizes P (Leaf v # rest) =
     (case sum_sizes P rest of Inl e \<Rightarrow> Inl e | Inr n \<Rightarrow> Inr (leaf_size P v + n))"

definition size_member :: "'a message_impls \<Rightarrow> (string \<rightharpoonup> 'a item) \<Rightarrow> lcm_member \<Rightarrow> failure + nat" where
  "size_member P self member =
     (let ndim = length (dimensions member) in
      case self (membername member) of
        None \<Rightarrow> Inl Not_valid_rust
      | Some item \<Rightarrow>
          if ndim > 0 then
            (case item of
               Leaf v \<Rightarrow> Inl Not_valid_rust
             | Seq xs \<Rightarrow>
                 (case flat_maps (ndim - 1) xs of
                    Inl e \<Rightarrow> Inl e
                  | Inr leaves \<Rightarrow> sum_sizes P leaves))
          else
            (case item of
               Leaf v \<Rightarrow> Inr (leaf_size P v)
             | Seq xs \<Rightarrow> Inl Not_valid_rust))"

fun size_members :: "'a message_impls \<Rightarrow> (string \<rightharpoonup> 'a item) \<Rightarrow> lcm_member list \<Rightarrow> failure + nat" where
  "size_members P self [] = Inr 0"
| "size_members P self (member # rest) =
     (case size_member P self member of
        Inl e \<Rightarrow> Inl e
      | Inr n \<Rightarrow> (case size_members P self rest of Inl e \<Rightarrow> Inl e | Inr k \<Rightarrow> Inr (n + k)))"

definition size_message :: "'a message_impls \<Rightarrow> lcm_struct \<Rightarrow> 'a struct_value \<Rightarrow> failure + nat" where
  "size_message P lcm_struct x = size_members P (map_of x) (members lcm_struct)"

section \<open>The decode routine\<close>

text \<open>
  The expression that \<^const>\<open>emit_impl_message_decode_recursive\<close> emits for one member,
  as a tree: \<open>Decode_leaf q\<close> is \<^verbatim>\<open>Message::decode(&mut buffer)\<close>, followed by \<^verbatim>\<open>?\<close> when
  \<open>q\<close> holds; \<open>Array_literal\<close> is the bracketed list of its elements; \<open>Range_collect n
  body q\<close> is \<^verbatim>\<open>(0..n).map(|_| { body }).collect::<Result<_>>()\<close>, followed by \<^verbatim>\<open>?\<close> when
  \<open>q\<close> holds. \<open>decode_expr_of q dims\<close> builds the tree for the dimensions from some index
  on, \<open>q\<close> being the condition of lines 460 and 488 at that index (the index is 0, or the
  dimension before it is constant); \<open>render_decode\<close> writes a tree as text. Lemma
  \<open>decode_recursive_render\<close> below shows that the emitted text is the rendered tree.
\<close>

datatype decode_expr =
    Decode_leaf bool
  | Array_literal "decode_expr list"
  | Range_collect string decode_expr bool

fun decode_expr_of :: "bool \<Rightarrow> lcm_dimension list \<Rightarrow> decode_expr option" where
  "decode_expr_of q [] = Some (Decode_leaf q)"
| "decode_expr_of q (dimension # rest) =
     (case mode dimension of
        LCM_CONST \<Rightarrow>
          (case loop_count (size_dim dimension) of
             None \<Rightarrow> None
           | Some n \<Rightarrow>
               if n = 0 then Some (Array_literal [])
               else map_option (\<lambda>element. Array_literal (replicate n element))
                      (decode_expr_of True rest))
      | LCM_VAR \<Rightarrow>
          map_option (\<lambda>body. Range_collect (size_dim dimension) body q)
            (decode_expr_of False rest))"

fun render_decode :: "nat \<Rightarrow> decode_expr \<Rightarrow> string" where
  "render_decode dim (Decode_leaf q) =
     emit_end '''' @
     emit_start (3 + dim) ''Message::decode(&mut buffer)'' @
     (if q then emit_continue ''?'' else [])"
| "render_decode dim (Array_literal elements) =
     emit_continue ''['' @
     concat (map (\<lambda>element. render_decode (dim + 1) element @ emit_continue '','') elements) @
     emit_end '''' @
     emit_start (2 + dim) '']''"
| "render_decode dim (Range_collect size_name body q) =
     emit_end '''' @
     emit_start (3 + dim) (''(0..'' @ size_name @ '').map(|_| {'') @
     render_decode (dim + 1) body @
     emit_end '''' @
     emit_start (3 + dim) ''}).collect::<Result<_>>()'' @
     (if q then emit_continue ''?'' else [])"

text \<open>
  Whether an expression is a value (\<open>Plain\<close>) or a \<^verbatim>\<open>Result\<close> (\<open>Fallible\<close>), by the typing
  rules of Rust: \<^verbatim>\<open>Message::decode\<close> returns a \<^verbatim>\<open>Result\<close> and \<^verbatim>\<open>?\<close> turns a \<^verbatim>\<open>Result\<close>
  into its value; the elements of an array literal that initializes a field are values;
  \<^verbatim>\<open>collect::<Result<_>>()\<close> needs a closure that returns a \<^verbatim>\<open>Result\<close>, and so does every
  \<^verbatim>\<open>?\<close> inside that closure. \<open>None\<close>: the expression has no type. \<open>range_names\<close> lists
  the names an expression reads as the bound of a range.
\<close>

datatype kind = Plain | Fallible

fun kind_of :: "decode_expr \<Rightarrow> kind option" where
  "kind_of (Decode_leaf q) = Some (if q then Plain else Fallible)"
| "kind_of (Array_literal elements) =
     (if list_all (\<lambda>element. kind_of element = Some Plain) elements then Some Plain else None)"
| "kind_of (Range_collect size_name body q) =
     (if kind_of body = Some Fallible then Some (if q then Plain else Fallible) else None)"

fun range_names :: "decode_expr \<Rightarrow> string list" where
  "range_names (Decode_leaf q) = []"
| "range_names (Array_literal elements) = concat (map range_names elements)"
| "range_names (Range_collect size_name body q) = size_name # range_names body"

text \<open>
  Evaluation. The readers of a sequence run one after the other on what the one before
  left of the input, and the first error ends the routine: inside a closure the error
  is the closure's result, \<^verbatim>\<open>collect\<close> stops at it, and the \<^verbatim>\<open>?\<close> after \<^verbatim>\<open>collect\<close>
  returns it. A range \<^verbatim>\<open>0..n\<close> has \<open>n\<close> elements, none when \<open>n\<close> is negative; \<open>env\<close> holds
  the variables bound so far.
\<close>

fun decode_seq ::
  "(byte list \<Rightarrow> failure + ('x \<times> byte list)) list \<Rightarrow> byte list \<Rightarrow> failure + ('x list \<times> byte list)"
where
  "decode_seq [] input = Inr ([], input)"
| "decode_seq (f # fs) input =
     (case f input of
        Inl e \<Rightarrow> Inl e
      | Inr (v, rest) \<Rightarrow>
          (case decode_seq fs rest of
             Inl e \<Rightarrow> Inl e
           | Inr (vs, rest') \<Rightarrow> Inr (v # vs, rest')))"

fun eval_decode ::
  "'a message_impls \<Rightarrow> (string \<rightharpoonup> 'a item) \<Rightarrow> lcm_typename \<Rightarrow> decode_expr
     \<Rightarrow> byte list \<Rightarrow> failure + ('a item \<times> byte list)"
where
  "eval_decode P env ty (Decode_leaf q) =
     (\<lambda>input. case leaf_decode P ty input of
                 Inl e \<Rightarrow> Inl e
               | Inr (v, rest) \<Rightarrow> Inr (Leaf v, rest))"
| "eval_decode P env ty (Array_literal elements) =
     (\<lambda>input. case decode_seq (map (eval_decode P env ty) elements) input of
                 Inl e \<Rightarrow> Inl e
               | Inr (vs, rest) \<Rightarrow> Inr (Seq vs, rest))"
| "eval_decode P env ty (Range_collect size_name body q) =
     (\<lambda>input. case field_int P env size_name of
                 None \<Rightarrow> Inl Not_valid_rust
               | Some n \<Rightarrow>
                   (case decode_seq (replicate (nat n) (eval_decode P env ty body)) input of
                      Inl e \<Rightarrow> Inl e
                    | Inr (vs, rest) \<Rightarrow> Inr (Seq vs, rest)))"

text \<open>
  The routine is a list of bindings \<^verbatim>\<open>let name = expression;\<close>, one per member in the order
  of the loop of lines 501 to 509, and then \<^verbatim>\<open>Ok(T { name: name, ... })\<close>. A binding is
  kept as the name, the base type of the member (the type of the leaves, which Rust
  infers from the field) and the expression. The text is a Rust routine when every
  expression is a value, every name a range reads is bound by an earlier \<^verbatim>\<open>let\<close>, and no
  field is named twice; then \<open>run_lets\<close> evaluates the bindings in order. The test
  covers the typing of \<^verbatim>\<open>?\<close> and \<^verbatim>\<open>collect\<close> and the scope of the names; a compiler
  may reject the text for other reasons (a member named \<^verbatim>\<open>buffer\<close> hides the reader
  from the bindings after it), and for such a struct there is no generated type and no
  value of it.
\<close>

type_synonym let_binding = "string \<times> lcm_typename \<times> decode_expr"

definition decode_let :: "lcm_member \<Rightarrow> let_binding option" where
  "decode_let member =
     map_option (\<lambda>expr. (membername member, type_m member, expr))
       (decode_expr_of True (dimensions member))"

definition decode_lets :: "lcm_struct \<Rightarrow> let_binding list option" where
  "decode_lets lcm_struct = those (map decode_let (members lcm_struct))"

definition render_let :: "let_binding \<Rightarrow> string" where
  "render_let binding =
     (case binding of (name, ty, expr) \<Rightarrow>
        emit_start 2 (''let '' @ name @ '' = '') @
        render_decode 0 expr @
        emit_end '';'' @
        emit 0 '''')"

fun lets_in_scope :: "string list \<Rightarrow> let_binding list \<Rightarrow> bool" where
  "lets_in_scope bound [] = True"
| "lets_in_scope bound ((name, ty, expr) # rest) =
     (list_all (\<lambda>size_name. size_name \<in> set bound) (range_names expr)
      \<and> lets_in_scope (bound @ [name]) rest)"

definition decode_is_valid_rust :: "let_binding list \<Rightarrow> bool" where
  "decode_is_valid_rust lets =
     (list_all (\<lambda>(name, ty, expr). kind_of expr = Some Plain) lets
      \<and> lets_in_scope [] lets
      \<and> distinct (map fst lets))"

fun run_lets ::
  "'a message_impls \<Rightarrow> 'a struct_value \<Rightarrow> let_binding list \<Rightarrow> byte list
     \<Rightarrow> failure + ('a struct_value \<times> byte list)"
where
  "run_lets P locals [] input = Inr (locals, input)"
| "run_lets P locals ((name, ty, expr) # rest) input =
     (case eval_decode P (map_of locals) ty expr input of
        Inl e \<Rightarrow> Inl e
      | Inr (v, input') \<Rightarrow> run_lets P (locals @ [(name, v)]) rest input')"

definition decode ::
  "'a message_impls \<Rightarrow> lcm_struct \<Rightarrow> byte list \<Rightarrow> failure + ('a struct_value \<times> byte list)" where
  "decode P lcm_struct input =
     (case decode_lets lcm_struct of
        None \<Rightarrow> Inl Generator_undefined
      | Some lets \<Rightarrow>
          if decode_is_valid_rust lets then run_lets P [] lets input
          else Inl Not_valid_rust)"

section \<open>Notions the claims are stated with\<close>

text \<open>
  A constant dimension whose size is a plain decimal number: the generated field is the
  array type \<^verbatim>\<open>[T; size]\<close> (\<^verbatim>\<open>emit_struct_def\<close>, line 370), which holds that many
  elements. \<open>item_of_type P ty dims item\<close>: \<open>item\<close> is a value of the field generated
  for a member of base type \<open>ty\<close> and dimensions \<open>dims\<close>.
\<close>

definition plain_decimal :: "string \<Rightarrow> bool" where
  "plain_decimal s = (s \<noteq> [] \<and> list_all isdigit s)"

fun item_of_type :: "'a message_impls \<Rightarrow> lcm_typename \<Rightarrow> lcm_dimension list \<Rightarrow> 'a item \<Rightarrow> bool" where
  "item_of_type P ty [] (Leaf v) = leaf_has_type P ty v"
| "item_of_type P ty [] (Seq xs) = False"
| "item_of_type P ty (dimension # rest) (Leaf v) = False"
| "item_of_type P ty (dimension # rest) (Seq xs) =
     ((mode dimension = LCM_VAR
       \<or> plain_decimal (size_dim dimension)
         \<and> decimal_value 0 (size_dim dimension) = length xs)
      \<and> list_all (item_of_type P ty rest) xs)"

text \<open>
  \<open>sizes_resolve\<close>: every variable dimension names a scalar integer field of the value
  (the referential invariant of section 3 of the specification). \<open>value_of_struct\<close>: the
  value has the members' fields, in order and under distinct names, each of its type.
\<close>

definition sizes_resolve :: "'a message_impls \<Rightarrow> (string \<rightharpoonup> 'a item) \<Rightarrow> lcm_dimension list \<Rightarrow> bool" where
  "sizes_resolve P self dims =
     list_all (\<lambda>dimension. mode dimension = LCM_CONST
                 \<or> field_int P self (size_dim dimension) \<noteq> None) dims"

definition value_of_struct :: "'a message_impls \<Rightarrow> lcm_struct \<Rightarrow> 'a struct_value \<Rightarrow> bool" where
  "value_of_struct P lcm_struct x =
     (map fst x = map membername (members lcm_struct)
      \<and> distinct (map membername (members lcm_struct))
      \<and> list_all
          (\<lambda>member. case map_of x (membername member) of
                       None \<Rightarrow> False
                     | Some item \<Rightarrow>
                         item_of_type P (type_m member) (dimensions member) item
                         \<and> sizes_resolve P (map_of x) (dimensions member))
          (members lcm_struct))"

text \<open>
  Along the elements that encode visits: \<open>counts_fit\<close> says that at every variable
  dimension the size field, cast to \<^verbatim>\<open>usize\<close>, is at most the length of the container;
  \<open>declared_leaves\<close> lists the leaves among the first declared-count elements of every
  variable container; \<open>declared_prefix\<close> cuts every variable container to its first
  declared-count elements; \<open>counts_exact\<close> says that every variable container holds
  exactly as many elements as its size field declares.
\<close>

fun counts_fit :: "'a message_impls \<Rightarrow> (string \<rightharpoonup> 'a item) \<Rightarrow> lcm_dimension list \<Rightarrow> 'a item \<Rightarrow> bool" where
  "counts_fit P self [] item = True"
| "counts_fit P self (dimension # rest) (Leaf v) = False"
| "counts_fit P self (dimension # rest) (Seq xs) =
     (if mode dimension = LCM_VAR then
        (case field_int P self (size_dim dimension) of
           None \<Rightarrow> False
         | Some n \<Rightarrow>
             as_usize n \<le> length xs
             \<and> list_all (counts_fit P self rest) (take (as_usize n) xs))
      else list_all (counts_fit P self rest) xs)"

fun declared_leaves :: "'a message_impls \<Rightarrow> (string \<rightharpoonup> 'a item) \<Rightarrow> lcm_dimension list \<Rightarrow> 'a item \<Rightarrow> 'a list" where
  "declared_leaves P self [] (Leaf v) = [v]"
| "declared_leaves P self [] (Seq xs) = []"
| "declared_leaves P self (dimension # rest) (Leaf v) = []"
| "declared_leaves P self (dimension # rest) (Seq xs) =
     (if mode dimension = LCM_VAR then
        (case field_int P self (size_dim dimension) of
           None \<Rightarrow> []
         | Some n \<Rightarrow> concat (map (declared_leaves P self rest) (take (as_usize n) xs)))
      else concat (map (declared_leaves P self rest) xs))"

definition all_counts_fit :: "'a message_impls \<Rightarrow> lcm_struct \<Rightarrow> 'a struct_value \<Rightarrow> bool" where
  "all_counts_fit P lcm_struct x =
     list_all
       (\<lambda>member. case map_of x (membername member) of
                    None \<Rightarrow> False
                  | Some item \<Rightarrow> counts_fit P (map_of x) (dimensions member) item)
       (members lcm_struct)"

definition all_declared_leaves :: "'a message_impls \<Rightarrow> lcm_struct \<Rightarrow> 'a struct_value \<Rightarrow> 'a list" where
  "all_declared_leaves P lcm_struct x =
     concat (map (\<lambda>member. case map_of x (membername member) of
                              None \<Rightarrow> []
                            | Some item \<Rightarrow> declared_leaves P (map_of x) (dimensions member) item)
               (members lcm_struct))"

fun declared_prefix :: "'a message_impls \<Rightarrow> (string \<rightharpoonup> 'a item) \<Rightarrow> lcm_dimension list \<Rightarrow> 'a item \<Rightarrow> 'a item" where
  "declared_prefix P self [] (Leaf v) = Leaf v"
| "declared_prefix P self [] (Seq xs) = Seq xs"
| "declared_prefix P self (dimension # rest) (Leaf v) = Leaf v"
| "declared_prefix P self (dimension # rest) (Seq xs) =
     (if mode dimension = LCM_VAR then
        (case field_int P self (size_dim dimension) of
           None \<Rightarrow> Seq xs
         | Some n \<Rightarrow> Seq (map (declared_prefix P self rest) (take (as_usize n) xs)))
      else Seq (map (declared_prefix P self rest) xs))"

fun counts_exact :: "'a message_impls \<Rightarrow> (string \<rightharpoonup> 'a item) \<Rightarrow> lcm_dimension list \<Rightarrow> 'a item \<Rightarrow> bool" where
  "counts_exact P self [] item = True"
| "counts_exact P self (dimension # rest) (Leaf v) = False"
| "counts_exact P self (dimension # rest) (Seq xs) =
     ((mode dimension = LCM_CONST
       \<or> field_int P self (size_dim dimension) = Some (int (length xs)))
      \<and> list_all (counts_exact P self rest) xs)"

definition all_counts_exact :: "'a message_impls \<Rightarrow> lcm_struct \<Rightarrow> 'a struct_value \<Rightarrow> bool" where
  "all_counts_exact P lcm_struct x =
     list_all
       (\<lambda>member. case map_of x (membername member) of
                    None \<Rightarrow> False
                  | Some item \<Rightarrow> counts_exact P (map_of x) (dimensions member) item)
       (members lcm_struct)"

text \<open>
  What decode builds. \<open>reaches_dimension member i\<close>: the recursion of
  \<^const>\<open>emit_impl_message_decode_recursive\<close>, started at index 0, arrives at index \<open>i\<close>
  of the member's dimensions; it stops before only at a constant dimension whose loop
  runs no round. \<open>decoded_counts P self dims item\<close>: at every nesting depth of \<open>item\<close>,
  a container of a variable dimension holds as many elements as the value of the size
  field says (none when it is negative), a container of a constant dimension as many as
  the loop of line 473 has rounds, and below the last dimension there is one leaf.
\<close>

definition reaches_dimension :: "lcm_member \<Rightarrow> nat \<Rightarrow> bool" where
  "reaches_dimension member i =
     (i < length (dimensions member)
      \<and> list_all (\<lambda>dimension. mode dimension = LCM_VAR \<or> loop_count (size_dim dimension) \<noteq> Some 0)
          (take i (dimensions member)))"

fun decoded_counts :: "'a message_impls \<Rightarrow> (string \<rightharpoonup> 'a item) \<Rightarrow> lcm_dimension list \<Rightarrow> 'a item \<Rightarrow> bool" where
  "decoded_counts P self [] (Leaf v) = True"
| "decoded_counts P self [] (Seq xs) = False"
| "decoded_counts P self (dimension # rest) (Leaf v) = False"
| "decoded_counts P self (dimension # rest) (Seq xs) =
     ((case mode dimension of
         LCM_VAR \<Rightarrow>
           (case field_int P self (size_dim dimension) of
              None \<Rightarrow> False
            | Some n \<Rightarrow> length xs = nat n)
       | LCM_CONST \<Rightarrow> loop_count (size_dim dimension) = Some (length xs))
      \<and> list_all (decoded_counts P self rest) xs)"

section \<open>Concrete structs and values\<close>

text \<open>
  One instance of the leaf implementations, for evaluating the routines on concrete
  values: every leaf is an \<^verbatim>\<open>int8_t\<close>, written and read as its one byte, of size 1, and
  its numeric value is the signed reading of the byte.
\<close>

definition int8_impls :: "byte message_impls" where
  "int8_impls =
     \<lparr>leaf_encode = (\<lambda>v. Inr [v]),
      leaf_decode = (\<lambda>ty input. case input of [] \<Rightarrow> Inl Leaf_error | b # rest \<Rightarrow> Inr (b, rest)),
      leaf_size = (\<lambda>v. 1),
      leaf_int = (\<lambda>v. Some (sint v)),
      leaf_has_type = (\<lambda>ty v. True)\<rparr>"

definition int8_t :: lcm_typename where
  "int8_t = \<lparr>lctypename = ''int8_t'', package = '''', shortname = ''int8_t''\<rparr>"

text \<open>
  The struct of the end-to-end scenario of the specification (section 8), a count and a
  sequence of that many values, and the same struct with the two members declared the
  other way round.
\<close>

definition reading_t :: lcm_struct where
  "reading_t =
     \<lparr>structname = \<lparr>lctypename = ''demo.reading_t'', package = ''demo'', shortname = ''reading_t''\<rparr>,
      members =
        [\<lparr>type_m = int8_t, membername = ''count'', dimensions = []\<rparr>,
         \<lparr>type_m = int8_t, membername = ''values'',
          dimensions = [\<lparr>mode = LCM_VAR, size_dim = ''count''\<rparr>]\<rparr>],
      hash = 0x123456789abcdef0\<rparr>"

definition reading_out_of_order_t :: lcm_struct where
  "reading_out_of_order_t =
     \<lparr>structname = \<lparr>lctypename = ''demo.reading_t'', package = ''demo'', shortname = ''reading_t''\<rparr>,
      members =
        [\<lparr>type_m = int8_t, membername = ''values'',
          dimensions = [\<lparr>mode = LCM_VAR, size_dim = ''count''\<rparr>]\<rparr>,
         \<lparr>type_m = int8_t, membername = ''count'', dimensions = []\<rparr>],
      hash = 0x123456789abcdef0\<rparr>"

definition reading_value :: "byte struct_value" where
  "reading_value = [(''count'', Leaf 2), (''values'', Seq [Leaf 7, Leaf 8, Leaf 9])]"

text \<open>
  A struct with nested dimensions: \<open>cells\<close> is a fixed array of two sequences
  (\<^verbatim>\<open>[Vec<i8>; 2]\<close>), \<open>rows\<close> a sequence of sequences; and one whose member \<open>xyz\<close> is a
  sequence of fixed arrays (\<^verbatim>\<open>Vec<[i8; 3]>\<close>).
\<close>

definition grid_t :: lcm_struct where
  "grid_t =
     \<lparr>structname = \<lparr>lctypename = ''demo.grid_t'', package = ''demo'', shortname = ''grid_t''\<rparr>,
      members =
        [\<lparr>type_m = int8_t, membername = ''n'', dimensions = []\<rparr>,
         \<lparr>type_m = int8_t, membername = ''cells'',
          dimensions = [\<lparr>mode = LCM_CONST, size_dim = ''2''\<rparr>, \<lparr>mode = LCM_VAR, size_dim = ''n''\<rparr>]\<rparr>,
         \<lparr>type_m = int8_t, membername = ''rows'',
          dimensions = [\<lparr>mode = LCM_VAR, size_dim = ''n''\<rparr>, \<lparr>mode = LCM_VAR, size_dim = ''n''\<rparr>]\<rparr>],
      hash = 0x0fedcba987654321\<rparr>"

definition grid_value :: "byte struct_value" where
  "grid_value =
     [(''n'', Leaf 1),
      (''cells'', Seq [Seq [Leaf 5], Seq [Leaf 6]]),
      (''rows'', Seq [Seq [Leaf 7]])]"

definition points_t :: lcm_struct where
  "points_t =
     \<lparr>structname = \<lparr>lctypename = ''demo.points_t'', package = ''demo'', shortname = ''points_t''\<rparr>,
      members =
        [\<lparr>type_m = int8_t, membername = ''n'', dimensions = []\<rparr>,
         \<lparr>type_m = int8_t, membername = ''xyz'',
          dimensions = [\<lparr>mode = LCM_VAR, size_dim = ''n''\<rparr>, \<lparr>mode = LCM_CONST, size_dim = ''3''\<rparr>]\<rparr>],
      hash = 0x0fedcba987654321\<rparr>"

text \<open>
  A struct whose member \<open>cells\<close>, a fixed array of two sequences, is declared before the
  size field \<open>n\<close> of its inner dimension.
\<close>

definition cells_out_of_order_t :: lcm_struct where
  "cells_out_of_order_t =
     \<lparr>structname = \<lparr>lctypename = ''demo.cells_t'', package = ''demo'', shortname = ''cells_t''\<rparr>,
      members =
        [\<lparr>type_m = int8_t, membername = ''cells'',
          dimensions = [\<lparr>mode = LCM_CONST, size_dim = ''2''\<rparr>, \<lparr>mode = LCM_VAR, size_dim = ''n''\<rparr>]\<rparr>,
         \<lparr>type_m = int8_t, membername = ''n'', dimensions = []\<rparr>],
      hash = 0x0fedcba987654321\<rparr>"

text \<open>The same with a constant dimension of count zero.\<close>

definition empty_cells_t :: lcm_struct where
  "empty_cells_t =
     \<lparr>structname = \<lparr>lctypename = ''demo.cells_t'', package = ''demo'', shortname = ''cells_t''\<rparr>,
      members =
        [\<lparr>type_m = int8_t, membername = ''cells'',
          dimensions = [\<lparr>mode = LCM_CONST, size_dim = ''0''\<rparr>, \<lparr>mode = LCM_VAR, size_dim = ''n''\<rparr>]\<rparr>,
         \<lparr>type_m = int8_t, membername = ''n'', dimensions = []\<rparr>],
      hash = 0x0fedcba987654321\<rparr>"

text \<open>A struct with two members of the same struct type.\<close>

definition two_pose_members :: lcm_struct where
  "two_pose_members =
     \<lparr>structname = \<lparr>lctypename = ''nav.segment_t'', package = ''nav'', shortname = ''segment_t''\<rparr>,
      members =
        [\<lparr>type_m = \<lparr>lctypename = ''nav.pose_t'', package = ''nav'', shortname = ''pose_t''\<rparr>,
          membername = ''from'', dimensions = []\<rparr>,
         \<lparr>type_m = \<lparr>lctypename = ''nav.pose_t'', package = ''nav'', shortname = ''pose_t''\<rparr>,
          membername = ''to'', dimensions = []\<rparr>],
      hash = 0x10\<rparr>"

section \<open>Definitions used for evaluation\<close>

text \<open>
  The loops given by \<^theory_text>\<open>function\<close> are unfolded one step at a time, where a proof
  asks for it.
\<close>

declare camel_case_in_place.simps [simp del]
declare camel_case_copy.simps [simp del]
declare emit_impl_message_decode_recursive.simps [simp del]

lemmas demo_defs =
  int8_impls_def int8_t_def reading_t_def reading_out_of_order_t_def
  encode_def encode_member_def size_message_def size_member_def
  decode_def decode_lets_def decode_let_def decode_is_valid_rust_def
  field_int_def rust_int_def as_usize_def

lemmas eval_defs =
  demo_defs value_of_struct_def sizes_resolve_def all_counts_fit_def all_declared_leaves_def
  all_counts_exact_def plain_decimal_def isdigit_def isspace_def digit_value_def
  loop_count_def sscanf_d_def grid_t_def grid_value_def points_t_def reading_value_def
  cells_out_of_order_t_def empty_cells_t_def reaches_dimension_def

section \<open>Properties of the identifier transforms\<close>

text \<open>
  The in-place loop never writes ahead of where it reads, so what it returns is the
  prefix already written followed by the transform of what is still to be read; the
  copying loop of the earlier generation likewise.
\<close>

lemma camel_case_in_place_eq:
  "result_char \<le> c \<Longrightarrow>
   camel_case_in_place result c result_char cap =
     take result_char result @ camel_case tolower cap (drop c result)"
proof (induction result c result_char cap rule: camel_case_in_place.induct)
  case (1 result c result_char cap)
  show ?case
  proof (cases "c < length result")
    case False
    then show ?thesis by (subst camel_case_in_place.simps) simp
  next
    case inside: True
    then have d: "drop c result = result ! c # drop (Suc c) result"
      by (simp add: Cons_nth_drop_Suc)
    have j: "result_char < length result"
      using inside "1.prems" by simp
    have upd: "take (Suc result_char) (result[result_char := x]) = take result_char result @ [x]"
      for x
      using j by (simp add: take_Suc_conv_app_nth)
    have rest: "drop (Suc c) (result[result_char := x]) = drop (Suc c) result" for x
      using "1.prems" by simp
    show ?thesis
    proof (cases "result ! c = CHR ''_''")
      case True
      have "camel_case_in_place result c result_char cap
            = camel_case_in_place result (c + 1) result_char True"
        using inside True by (subst camel_case_in_place.simps) simp
      also have "\<dots> = take result_char result @ camel_case tolower True (drop (c + 1) result)"
        using "1.IH"(1) [OF inside True] "1.prems" by simp
      finally show ?thesis using d True by simp
    next
      case other: False
      show ?thesis
      proof (cases cap)
        case True
        have "camel_case_in_place result c result_char cap
              = camel_case_in_place (result[result_char := toupper (result ! c)])
                  (c + 1) (result_char + 1) False"
          using inside other True by (subst camel_case_in_place.simps) simp
        also have "\<dots> = take (result_char + 1) (result[result_char := toupper (result ! c)])
                      @ camel_case tolower False
                          (drop (c + 1) (result[result_char := toupper (result ! c)]))"
          using "1.IH"(2) [OF inside other True] "1.prems" by simp
        finally show ?thesis using d other True upd rest by simp
      next
        case False
        have "camel_case_in_place result c result_char cap
              = camel_case_in_place (result[result_char := tolower (result ! c)])
                  (c + 1) (result_char + 1) False"
          using inside other False by (subst camel_case_in_place.simps) simp
        also have "\<dots> = take (result_char + 1) (result[result_char := tolower (result ! c)])
                      @ camel_case tolower False
                          (drop (c + 1) (result[result_char := tolower (result ! c)]))"
          using "1.IH"(3) [OF inside other False] "1.prems" by simp
        finally show ?thesis using d other False upd rest by simp
      qed
    qed
  qed
qed

lemma camel_case_copy_eq:
  "result_char \<le> c \<Longrightarrow> length result = length input \<Longrightarrow>
   camel_case_copy input result c result_char cap =
     take result_char result @ camel_case (\<lambda>x. x) cap (drop c input)"
proof (induction input result c result_char cap rule: camel_case_copy.induct)
  case (1 input result c result_char cap)
  show ?case
  proof (cases "c < length input")
    case False
    then show ?thesis by (subst camel_case_copy.simps) simp
  next
    case inside: True
    then have d: "drop c input = input ! c # drop (Suc c) input"
      by (simp add: Cons_nth_drop_Suc)
    have j: "result_char < length result"
      using inside "1.prems" by simp
    have upd: "take (Suc result_char) (result[result_char := x]) = take result_char result @ [x]"
      for x
      using j by (simp add: take_Suc_conv_app_nth)
    show ?thesis
    proof (cases "input ! c = CHR ''_''")
      case True
      have "camel_case_copy input result c result_char cap
            = camel_case_copy input result (c + 1) result_char True"
        using inside True by (subst camel_case_copy.simps) simp
      also have "\<dots> = take result_char result @ camel_case (\<lambda>x. x) True (drop (c + 1) input)"
        using "1.IH"(1) [OF inside True] "1.prems" by simp
      finally show ?thesis using d True by simp
    next
      case other: False
      show ?thesis
      proof (cases cap)
        case True
        have "camel_case_copy input result c result_char cap
              = camel_case_copy input (result[result_char := toupper (input ! c)])
                  (c + 1) (result_char + 1) False"
          using inside other True by (subst camel_case_copy.simps) simp
        also have "\<dots> = take (result_char + 1) (result[result_char := toupper (input ! c)])
                      @ camel_case (\<lambda>x. x) False (drop (c + 1) input)"
          using "1.IH"(2) [OF inside other True] "1.prems" by simp
        finally show ?thesis using d other True upd by simp
      next
        case False
        have "camel_case_copy input result c result_char cap
              = camel_case_copy input (result[result_char := input ! c])
                  (c + 1) (result_char + 1) False"
          using inside other False by (subst camel_case_copy.simps) simp
        also have "\<dots> = take (result_char + 1) (result[result_char := input ! c])
                      @ camel_case (\<lambda>x. x) False (drop (c + 1) input)"
          using "1.IH"(3) [OF inside other False] "1.prems" by simp
        finally show ?thesis using d other False upd by simp
      qed
    qed
  qed
qed

lemma split_underscore_not_Nil: "split_underscore s \<noteq> []"
  by (induction s) (auto split: list.splits)

lemma camel_case_segments:
  "camel_case tolower cap s =
     (case split_underscore s of
        [] \<Rightarrow> []
      | seg # segs \<Rightarrow>
          (if cap then capitalize_segment seg else map tolower seg)
            @ concat (map capitalize_segment segs))"
proof (induction s arbitrary: cap)
  case Nil
  then show ?case by simp
next
  case (Cons c cs)
  show ?case
  proof (cases "c = CHR ''_''")
    case True
    then show ?thesis
      using Cons.IH [of True] by (simp split: list.splits)
  next
    case False
    then show ?thesis
      using Cons.IH [of False] split_underscore_not_Nil [of cs]
      by (simp split: list.splits)
  qed
qed

lemma camel_case_to_upper_camel: "camel_case tolower True s = to_upper_camel s"
  using split_underscore_not_Nil [of s]
  by (simp add: camel_case_segments to_upper_camel_def split: list.splits)

lemma length_camel_case:
  "length (camel_case rest cap s) = length (filter (\<lambda>c. c \<noteq> CHR ''_'') s)"
  by (induction s arbitrary: cap) auto

lemma camel_case_rest_agree:
  "camel_case tolower cap s = camel_case (\<lambda>x. x) cap s \<longleftrightarrow> lower_case_rest cap s"
  by (induction s arbitrary: cap) auto

lemma suffix_decompose:
  assumes "has_underscore_t_suffix s"
  shows "s = strip_underscore_t s @ ''_t''"
proof -
  let ?n = "length s"
  from assms have len: "2 \<le> ?n" and a: "s ! (?n - 2) = CHR ''_''" and b: "s ! (?n - 1) = CHR ''t''"
    by (auto simp: has_underscore_t_suffix_def)
  have "drop (?n - 2) s = s ! (?n - 2) # drop (Suc (?n - 2)) s"
    using len by (intro Cons_nth_drop_Suc [symmetric]) simp
  moreover have "Suc (?n - 2) = ?n - 1" using len by simp
  moreover have "drop (?n - 1) s = s ! (?n - 1) # drop (Suc (?n - 1)) s"
    using len by (intro Cons_nth_drop_Suc [symmetric]) simp
  ultimately have "drop (?n - 2) s = ''_t''" using a b len by simp
  moreover have "strip_underscore_t s = take (?n - 2) s"
    using len a b by (simp add: strip_underscore_t_def Let_def)
  ultimately show ?thesis
    by (metis append_take_drop_id)
qed

lemma strip_underscore_t_id: "\<not> has_underscore_t_suffix s \<Longrightarrow> strip_underscore_t s = s"
  by (auto simp: has_underscore_t_suffix_def strip_underscore_t_def Let_def)

lemma camel_case_append:
  "camel_case rest cap (s @ ''_t'') = camel_case rest cap s @ ''T''"
  by (induction s arbitrary: cap) (auto simp: toupper_def)

lemma lower_case_rest_segments:
  "lower_case_rest cap s \<longleftrightarrow>
     (case split_underscore s of
        [] \<Rightarrow> True
      | seg # segs \<Rightarrow>
          (\<forall>c \<in> set (if cap then tl seg else seg). tolower c = c)
          \<and> (\<forall>g \<in> set segs. \<forall>c \<in> set (tl g). tolower c = c))"
proof (induction s arbitrary: cap)
  case Nil
  then show ?case by simp
next
  case (Cons c cs)
  show ?case
  proof (cases "c = CHR ''_''")
    case True
    then show ?thesis
      using Cons.IH [of True] split_underscore_not_Nil [of cs] by (auto split: list.splits)
  next
    case False
    then show ?thesis
      using Cons.IH [of False] split_underscore_not_Nil [of cs] by (auto split: list.splits)
  qed
qed

text \<open>
  Claim C9. The camel-case transform of \<^verbatim>\<open>make_rust_type_name\<close> (the loop under the
  comment "Convert to camel case") splits its input on underscore, capitalizes the first
  letter of each segment, lower-cases the remainder of each segment and concatenates the
  segments with no separator, for every identifier: run on the whole buffer it returns
  \<^const>\<open>to_upper_camel\<close> of it. \<^verbatim>\<open>make_rust_type_name\<close> applies it to the short name
  after \<^const>\<open>strip_underscore_t\<close>, and maps \<^verbatim>\<open>foo_bar\<close> to \<^verbatim>\<open>FooBar\<close>.
\<close>

theorem camel_case_transform:
  "camel_case_in_place identifier 0 0 True = to_upper_camel identifier
   \<and> make_rust_type_name typename = to_upper_camel (strip_underscore_t (shortname typename))
   \<and> make_rust_type_name \<lparr>lctypename = ''foo_bar'', package = [], shortname = ''foo_bar''\<rparr>
       = ''FooBar''"
proof (intro conjI)
  show "camel_case_in_place identifier 0 0 True = to_upper_camel identifier"
    by (simp add: camel_case_in_place_eq camel_case_to_upper_camel)
  show general: "make_rust_type_name typename = to_upper_camel (strip_underscore_t (shortname typename))"
    for typename
    by (simp add: make_rust_type_name_def camel_case_in_place_eq camel_case_to_upper_camel)
  show "make_rust_type_name \<lparr>lctypename = ''foo_bar'', package = [], shortname = ''foo_bar''\<rparr>
       = ''FooBar''"
    by (simp add: general to_upper_camel_def strip_underscore_t_def toupper_def tolower_def)
qed

text \<open>
  Claim C10, as amended. The two generations of \<^verbatim>\<open>make_rust_type_name\<close> return the same
  string exactly for the identifiers that do not end in \<^verbatim>\<open>_t\<close> and in which no segment
  has, after its first character, a character that \<^verbatim>\<open>tolower\<close> changes; on every other
  identifier they differ (the later one strips \<^verbatim>\<open>_t\<close> and lower-cases the rest of each
  segment, the earlier one does neither).
\<close>

theorem type_name_generations_agree_iff:
  "make_rust_type_name_part_000 (shortname typename) = make_rust_type_name typename
   \<longleftrightarrow> \<not> has_underscore_t_suffix (shortname typename)
       \<and> (\<forall>seg \<in> set (split_underscore (shortname typename)). \<forall>c \<in> set (tl seg). tolower c = c)"
proof -
  let ?s = "shortname typename"
  have old: "make_rust_type_name_part_000 ?s = camel_case (\<lambda>x. x) True ?s"
    by (simp add: make_rust_type_name_part_000_def camel_case_copy_eq)
  have new: "make_rust_type_name typename = camel_case tolower True (strip_underscore_t ?s)"
    by (simp add: make_rust_type_name_def camel_case_in_place_eq)
  have segs: "lower_case_rest True ?s \<longleftrightarrow>
      (\<forall>seg \<in> set (split_underscore ?s). \<forall>c \<in> set (tl seg). tolower c = c)"
    using split_underscore_not_Nil [of ?s]
    by (auto simp: lower_case_rest_segments split: list.splits)
  show ?thesis
  proof (cases "has_underscore_t_suffix ?s")
    case True
    then have "?s = strip_underscore_t ?s @ ''_t''" by (rule suffix_decompose)
    then have "camel_case (\<lambda>x. x) True ?s
               = camel_case (\<lambda>x. x) True (strip_underscore_t ?s) @ ''T''"
      using camel_case_append [of "\<lambda>x. x" True "strip_underscore_t ?s"] by simp
    then have "length (camel_case (\<lambda>x. x) True ?s)
               \<noteq> length (camel_case tolower True (strip_underscore_t ?s))"
      by (simp add: length_camel_case)
    then have "make_rust_type_name_part_000 ?s \<noteq> make_rust_type_name typename"
      using old new by auto
    with True show ?thesis by simp
  next
    case False
    then show ?thesis
      using old new segs camel_case_rest_agree [of True ?s]
      by (auto simp: strip_underscore_t_id)
  qed
qed

text \<open>
  The theorem at \<^verbatim>\<open>foo_bar\<close>, which has no suffix \<^verbatim>\<open>_t\<close> and no upper-case letter: the
  two generations agree there.
\<close>

theorem type_name_generations_agree_witness:
  "make_rust_type_name_part_000 ''foo_bar''
     = make_rust_type_name \<lparr>lctypename = ''demo.foo_bar'', package = ''demo'', shortname = ''foo_bar''\<rparr>"
proof -
  have "\<not> has_underscore_t_suffix ''foo_bar''"
    by (simp add: has_underscore_t_suffix_def)
  moreover have "\<forall>seg \<in> set (split_underscore ''foo_bar''). \<forall>c \<in> set (tl seg). tolower c = c"
    by (simp add: tolower_def)
  ultimately show ?thesis
    using type_name_generations_agree_iff
      [of "\<lparr>lctypename = ''demo.foo_bar'', package = ''demo'', shortname = ''foo_bar''\<rparr>"]
    by simp
qed

text \<open>
  Claim C10 as stated fails: on \<^verbatim>\<open>pose_t\<close> the earlier generation returns \<^verbatim>\<open>PoseT\<close> and
  the later one \<^verbatim>\<open>Pose\<close>; on \<^verbatim>\<open>fooBar\<close> the earlier returns \<^verbatim>\<open>FooBar\<close> and the later
  \<^verbatim>\<open>Foobar\<close>.
\<close>

theorem type_name_generations_differ:
  "make_rust_type_name_part_000 ''pose_t'' = ''PoseT''
   \<and> make_rust_type_name \<lparr>lctypename = ''nav.pose_t'', package = ''nav'', shortname = ''pose_t''\<rparr>
       = ''Pose''
   \<and> make_rust_type_name_part_000 ''fooBar'' = ''FooBar''
   \<and> make_rust_type_name \<lparr>lctypename = ''fooBar'', package = [], shortname = ''fooBar''\<rparr>
       = ''Foobar''"
  by (simp add: make_rust_type_name_part_000_def camel_case_copy_eq
      make_rust_type_name_def camel_case_in_place_eq
      strip_underscore_t_def toupper_def tolower_def)

section \<open>Properties of the hash routine\<close>

lemma bit_and_one: "bit (x AND (1 :: 64 word)) n \<longleftrightarrow> n = 0 \<and> bit x 0"
  by (auto simp: bit_and_iff bit_1_iff)

lemma bit_shifted: "bit (push_bit 1 (h :: 64 word)) n \<longleftrightarrow> 0 < n \<and> n < 64 \<and> bit h (n - 1)"
proof -
  have "bit (push_bit 1 h) n \<longleftrightarrow> 1 \<le> n \<and> n < LENGTH(64) \<and> bit h (n - 1)"
    by (simp only: bit_push_bit_iff possible_bit_word)
  then show ?thesis by auto
qed

lemma rotl_bits:
  "bit (word_rotl 1 (h :: 64 word)) n \<longleftrightarrow> (if n = 0 then bit h 63 else n < 64 \<and> bit h (n - 1))"
proof (cases "n = 0")
  case True
  then show ?thesis by (simp add: bit_word_rotl_iff)
next
  case False
  show ?thesis
  proof (cases "n < 64")
    case True
    with False have "n + 63 = (n - 1) + 64" by simp
    then have "(n + 63) mod 64 = (n - 1) mod 64" by (metis mod_add_self2)
    with True False have "(n + 63) mod 64 = n - 1" by simp
    with True False show ?thesis by (simp add: bit_word_rotl_iff)
  next
    case False
    then show ?thesis by (simp add: bit_word_rotl_iff)
  qed
qed

lemma rotl_as_or: "word_rotl 1 (h :: 64 word) = push_bit 1 h OR (x AND 1)" if "bit x 0 = bit h 63"
proof (rule bit_word_eqI)
  fix n assume "n < LENGTH(64)"
  show "bit (word_rotl 1 h) n = bit (push_bit 1 h OR (x AND 1)) n"
    unfolding bit_or_iff bit_and_one bit_shifted rotl_bits using that by (cases "n = 0") auto
qed

lemma shifted_plus_low_bit:
  "push_bit 1 (h :: 64 word) + (x AND 1) = push_bit 1 h OR (x AND 1)"
proof (rule disjunctive_add)
  fix n show "\<not> bit (push_bit 1 h) n \<or> \<not> bit (x AND 1) n"
    unfolding bit_and_one bit_shifted by auto
qed

text \<open>
  Claim C7. For every 64-bit value \<open>h\<close> the emitted expression
  \<^verbatim>\<open>(hash << 1) + ((hash >> 63) & 1)\<close>, in arithmetic modulo \<open>2^64\<close>, is \<open>h\<close> rotated left
  by one bit, the low bit receiving the former top bit; this holds with the logical
  shift of \<^verbatim>\<open>u64\<close> (emit_rust.c) and with the arithmetic shift of \<^verbatim>\<open>i64\<close> (part_000).
\<close>

theorem published_fingerprint_rotates_left:
  "published_fingerprint h = word_rotl 1 h \<and> published_fingerprint_i64 h = word_rotl 1 h"
proof
  have "bit (drop_bit 63 h) 0 = bit h 63" by (simp add: bit_drop_bit_eq)
  then show "published_fingerprint h = word_rotl 1 h"
    unfolding published_fingerprint_def shifted_plus_low_bit by (rule rotl_as_or [symmetric])
  have "bit (signed_drop_bit 63 h) 0 = bit h 63" by (simp add: bit_signed_drop_bit_iff)
  then show "published_fingerprint_i64 h = word_rotl 1 h"
    unfolding published_fingerprint_i64_def shifted_plus_low_bit by (rule rotl_as_or [symmetric])
qed

text \<open>The value of the whole emitted routine: the composed hash, rotated.\<close>

lemma message_hash_rotates_composed_hash:
  "message_hash type_hash is_primitive lcm_struct
     = word_rotl 1 (composed_hash type_hash is_primitive lcm_struct)"
proof -
  have "bit (drop_bit 63 h) 0 = bit h 63" for h :: "64 word"
    by (simp add: bit_drop_bit_eq)
  then show ?thesis
    unfolding message_hash_def published_fingerprint_def shifted_plus_low_bit
    by (rule rotl_as_or [symmetric])
qed

lemma emit_hash_members_terms:
  "emit_hash_members is_primitive lcm_struct ms =
     concat (map (\<lambda>lm. emit 3 (''.wrapping_add('' @ map_type_name (type_m lm) @ ''::hash())''))
       (filter (references_struct is_primitive lcm_struct) ms))"
  by (induction ms) (simp_all add: references_struct_def Let_def)

lemma foldl_wrapping_add:
  "foldl (\<lambda>h t. h + f t) (a :: 64 word) ts = a + sum_list (map f ts)"
  by (induction ts arbitrary: a) (simp_all add: add.assoc)

lemma filter_with_dimensions:
  "map (\<lambda>lm. map_type_name (type_m lm))
     (filter (references_struct is_primitive (with_dimensions f lcm_struct))
        (map (\<lambda>lm. lm\<lparr>dimensions := f lm\<rparr>) ms))
   = map (\<lambda>lm. map_type_name (type_m lm)) (filter (references_struct is_primitive lcm_struct) ms)"
  by (induction ms) (simp_all add: references_struct_def with_dimensions_def)

lemma make_rust_type_name_pose:
  "make_rust_type_name \<lparr>lctypename = ''nav.pose_t'', package = ''nav'', shortname = ''pose_t''\<rparr>
     = ''Pose''"
  by (simp add: make_rust_type_name_def camel_case_in_place_eq strip_underscore_t_def
      toupper_def tolower_def)

text \<open>
  Claim C1, as amended. The emitted routine adds to the base hash the hash of a
  referenced struct type once for every member whose base type it is, not once per
  distinct type: the emitted text has one line \<^verbatim>\<open>.wrapping_add(T::hash())\<close> per member
  whose type is neither primitive nor the struct's own, in member order; the value is
  the base hash plus the sum of these members' type hashes; a type name \<open>T\<close> occurs as
  often as there are such members of that type; and the dimensions of the members play
  no part.
\<close>

theorem composed_hash_adds_once_per_member:
  "emit_impl_message_hash is_primitive lcm_struct =
     emit 1 ''fn hash() -> u64 {'' @
     emit 2 ''let hash = {'' @
     emit 3 (''0x'' @ format_016x (hash lcm_struct) @ ''u64'') @
     concat (map (\<lambda>t. emit 3 (''.wrapping_add('' @ t @ ''::hash())''))
       (hash_terms is_primitive lcm_struct)) @
     emit 2 ''};'' @
     emit 2 ''(hash << 1) + ((hash >> 63) & 1)'' @
     emit 1 ''}'' @
     emit 0 []
   \<and> composed_hash type_hash is_primitive lcm_struct =
       hash lcm_struct
       + sum_list (map (\<lambda>lm. type_hash (map_type_name (type_m lm)))
           (filter (references_struct is_primitive lcm_struct) (members lcm_struct)))
   \<and> length (filter (\<lambda>t. t = T) (hash_terms is_primitive lcm_struct)) =
       length (filter (\<lambda>lm. references_struct is_primitive lcm_struct lm
                             \<and> map_type_name (type_m lm) = T) (members lcm_struct))
   \<and> hash_terms is_primitive (with_dimensions f lcm_struct) = hash_terms is_primitive lcm_struct"
proof (intro conjI)
  show "emit_impl_message_hash is_primitive lcm_struct =
     emit 1 ''fn hash() -> u64 {'' @
     emit 2 ''let hash = {'' @
     emit 3 (''0x'' @ format_016x (hash lcm_struct) @ ''u64'') @
     concat (map (\<lambda>t. emit 3 (''.wrapping_add('' @ t @ ''::hash())''))
       (hash_terms is_primitive lcm_struct)) @
     emit 2 ''};'' @
     emit 2 ''(hash << 1) + ((hash >> 63) & 1)'' @
     emit 1 ''}'' @
     emit 0 []"
    by (simp add: emit_impl_message_hash_def emit_hash_members_terms hash_terms_def comp_def)
  show "composed_hash type_hash is_primitive lcm_struct =
       hash lcm_struct
       + sum_list (map (\<lambda>lm. type_hash (map_type_name (type_m lm)))
           (filter (references_struct is_primitive lcm_struct) (members lcm_struct)))"
    by (simp add: composed_hash_def hash_terms_def foldl_wrapping_add comp_def)
  show "length (filter (\<lambda>t. t = T) (hash_terms is_primitive lcm_struct)) =
       length (filter (\<lambda>lm. references_struct is_primitive lcm_struct lm
                             \<and> map_type_name (type_m lm) = T) (members lcm_struct))"
    by (simp add: hash_terms_def filter_map comp_def conj_commute)
  show "hash_terms is_primitive (with_dimensions f lcm_struct) = hash_terms is_primitive lcm_struct"
    using filter_with_dimensions [of is_primitive f lcm_struct "members lcm_struct"]
    by (simp add: hash_terms_def with_dimensions_def)
qed

text \<open>
  Claim C1 as stated fails on a struct with two members of the struct type
  \<^verbatim>\<open>nav.pose_t\<close>: the emitted routine adds \<^verbatim>\<open>Pose::hash()\<close> twice, so with a type hash of
  1 and the base hash \<open>0x10\<close> it computes \<open>0x12\<close>, where adding each distinct type
  once gives \<open>0x11\<close>.
\<close>

theorem composed_hash_not_once_per_distinct_type:
  "hash_terms lcm_is_primitive_type two_pose_members = [''Pose'', ''Pose'']
   \<and> composed_hash (\<lambda>t. 1) lcm_is_primitive_type two_pose_members = 0x12
   \<and> spec_composed_hash (\<lambda>t. 1) lcm_is_primitive_type two_pose_members = 0x11
   \<and> composed_hash (\<lambda>t. 1) lcm_is_primitive_type two_pose_members
       \<noteq> spec_composed_hash (\<lambda>t. 1) lcm_is_primitive_type two_pose_members"
  by (simp add: hash_terms_def composed_hash_def spec_composed_hash_def two_pose_members_def
      references_struct_def lcm_is_primitive_type_def map_type_name_def map_lcm_primitive_def
      make_rust_type_name_pose)

text \<open>
  Claim C8. A member whose base type is primitive or is the struct's own type adds no
  term: deleting all such members leaves the emitted hash routine unchanged, and a type
  name occurs among the \<^verbatim>\<open>wrapping_add\<close> terms only as the Rust name of the type of a
  member whose type is neither primitive nor the struct's own.
\<close>

theorem primitive_and_self_members_add_nothing:
  "emit_impl_message_hash is_primitive lcm_struct =
     emit_impl_message_hash is_primitive
       (lcm_struct\<lparr>members := filter (references_struct is_primitive lcm_struct) (members lcm_struct)\<rparr>)
   \<and> (t \<in> set (hash_terms is_primitive lcm_struct) \<longleftrightarrow>
        (\<exists>lm \<in> set (members lcm_struct).
            \<not> is_primitive (lctypename (type_m lm))
            \<and> lctypename (type_m lm) \<noteq> lctypename (structname lcm_struct)
            \<and> t = map_type_name (type_m lm)))"
proof
  have "filter (references_struct is_primitive lcm_struct)
          (filter (references_struct is_primitive lcm_struct) (members lcm_struct))
        = filter (references_struct is_primitive lcm_struct) (members lcm_struct)"
    by simp
  moreover have "references_struct is_primitive
        (lcm_struct\<lparr>members := filter (references_struct is_primitive lcm_struct) (members lcm_struct)\<rparr>)
      = references_struct is_primitive lcm_struct"
    by (simp add: references_struct_def fun_eq_iff)
  ultimately show "emit_impl_message_hash is_primitive lcm_struct =
     emit_impl_message_hash is_primitive
       (lcm_struct\<lparr>members := filter (references_struct is_primitive lcm_struct) (members lcm_struct)\<rparr>)"
    by (simp add: emit_impl_message_hash_def emit_hash_members_terms)
  show "t \<in> set (hash_terms is_primitive lcm_struct) \<longleftrightarrow>
        (\<exists>lm \<in> set (members lcm_struct).
            \<not> is_primitive (lctypename (type_m lm))
            \<and> lctypename (type_m lm) \<noteq> lctypename (structname lcm_struct)
            \<and> t = map_type_name (type_m lm))"
    by (auto simp: hash_terms_def references_struct_def)
qed

section \<open>The emitted text of the scenario struct\<close>

text \<open>
  The three routines as emitted for \<^const>\<open>reading_t\<close>, each line given by its
  indentation and its text. These are the Rust routines that \<^const>\<open>encode\<close>,
  \<^const>\<open>size_message\<close> and \<^const>\<open>decode\<close> follow.
\<close>

lemmas emit_defs = emit_def emit_start_def emit_end_def emit_continue_def INDENT_def

lemma emit_encode_reading:
  "emit_impl_message_encode reading_t =
     emit 1 ''fn encode(&self, mut buffer: &mut Write) -> Result<()> {'' @
     emit 2 ''let item = &self.count;'' @
     emit 2 ''item.encode(&mut buffer)?;'' @
     emit 2 ''let item = &self.values;'' @
     emit 2 ''if self.count as usize > item.len() {'' @
     emit 3 (''return Err(Error::new(ErrorKind::Other, '' @ [CHR 0x22]
             @ ''Size is larger than vector'' @ [CHR 0x22] @ ''));'') @
     emit 2 ''};'' @
     emit 2 ''for item in item.iter().take(self.count as usize) {'' @
     emit 3 ''item.encode(&mut buffer)?;'' @
     emit 2 ''}'' @
     emit 2 ''Ok(())'' @
     emit 1 ''}'' @
     emit 0 []"
  by (simp add: emit_impl_message_encode_def emit_encode_member_def encode_close_loops_def
      reading_t_def int8_t_def emit_defs)

lemma emit_size_reading:
  "emit_impl_message_size reading_t =
     emit 1 ''fn size(&self) -> usize {'' @
     emit 2 ''0'' @
     emit 2 ''+ self.count.size()'' @
     emit 2 ''+ self.values.iter().map(Message::size).sum::<usize>()'' @
     emit 1 ''}''"
  by (simp add: emit_impl_message_size_def emit_size_member_def reading_t_def int8_t_def
      emit_defs)

lemma make_rust_type_name_reading:
  "make_rust_type_name
     \<lparr>lctypename = ''demo.reading_t'', package = ''demo'', shortname = ''reading_t''\<rparr> = ''Reading''"
  by (simp add: make_rust_type_name_def camel_case_in_place_eq strip_underscore_t_def
      toupper_def tolower_def)

lemma emit_decode_reading:
  "emit_impl_message_decode reading_t =
     Some (emit 1 ''fn decode(mut buffer: &mut Read) -> Result<Self> {'' @
           emit 2 ''let count = '' @
           emit 3 ''Message::decode(&mut buffer)?;'' @
           emit 0 [] @
           emit 2 ''let values = '' @
           emit 3 ''(0..count).map(|_| {'' @
           emit 4 ''Message::decode(&mut buffer)'' @
           emit 3 ''}).collect::<Result<_>>()?;'' @
           emit 0 [] @
           emit 2 ''Ok(Reading {'' @
           emit 3 ''count: count,'' @
           emit 3 ''values: values,'' @
           emit 2 ''})'' @
           emit 1 ''}'' @
           emit 0 [])"
  by (simp add: emit_impl_message_decode_def emit_decode_member_def
      emit_impl_message_decode_recursive.simps make_rust_type_name_reading
      reading_t_def int8_t_def emit_defs)

text \<open>
  With the two members declared the other way round the bindings are emitted the other
  way round as well: the range reads \<^verbatim>\<open>count\<close> before \<^verbatim>\<open>count\<close> is bound.
\<close>

lemma emit_decode_reading_out_of_order:
  "emit_impl_message_decode reading_out_of_order_t =
     Some (emit 1 ''fn decode(mut buffer: &mut Read) -> Result<Self> {'' @
           emit 2 ''let values = '' @
           emit 3 ''(0..count).map(|_| {'' @
           emit 4 ''Message::decode(&mut buffer)'' @
           emit 3 ''}).collect::<Result<_>>()?;'' @
           emit 0 [] @
           emit 2 ''let count = '' @
           emit 3 ''Message::decode(&mut buffer)?;'' @
           emit 0 [] @
           emit 2 ''Ok(Reading {'' @
           emit 3 ''values: values,'' @
           emit 3 ''count: count,'' @
           emit 2 ''})'' @
           emit 1 ''}'' @
           emit 0 [])"
  by (simp add: emit_impl_message_decode_def emit_decode_member_def
      emit_impl_message_decode_recursive.simps make_rust_type_name_reading
      reading_out_of_order_t_def int8_t_def emit_defs)

section \<open>Properties of the encode routine\<close>

lemma encode_seq_append:
  "encode_seq f (xs @ ys) =
     (case encode_seq f xs of
        Inl e \<Rightarrow> Inl e
      | Inr a \<Rightarrow> (case encode_seq f ys of Inl e \<Rightarrow> Inl e | Inr b \<Rightarrow> Inr (a @ b)))"
  by (induction xs) (auto split: sum.splits)

lemma encode_seq_map: "encode_seq f (map g xs) = encode_seq (\<lambda>x. f (g x)) xs"
  by (induction xs) (simp_all split: sum.splits)

lemma encode_seq_if:
  "(\<And>x. x \<in> set xs \<Longrightarrow> f x = (if fit x then Inr (g x) else Inl E)) \<Longrightarrow>
   encode_seq f xs = (if list_all fit xs then Inr (concat (map g xs)) else Inl E)"
  by (induction xs) auto

lemma encode_dims_declared_prefix:
  "encode_dims P self dims (declared_prefix P self dims item) = encode_dims P self dims item"
proof (induction dims arbitrary: item)
  case Nil
  then show ?case by (cases item) simp_all
next
  case (Cons d rest)
  show ?case
  proof (cases item)
    case (Leaf v)
    then show ?thesis by simp
  next
    case (Seq xs)
    have inner: "encode_seq (encode_dims P self rest) (map (declared_prefix P self rest) ys)
                 = encode_seq (encode_dims P self rest) ys" for ys
      by (simp add: encode_seq_map Cons.IH)
    show ?thesis
    proof (cases "mode d = LCM_VAR")
      case False
      with Seq inner show ?thesis by simp
    next
      case var: True
      show ?thesis
      proof (cases "field_int P self (size_dim d)")
        case None
        with Seq var show ?thesis by simp
      next
        case (Some n)
        show ?thesis
        proof (cases "as_usize n > length xs")
          case True
          with Seq var Some show ?thesis by simp
        next
          case False
          then have "min (length xs) (as_usize n) = as_usize n" by simp
          with Seq var Some False inner show ?thesis by (simp add: take_map)
        qed
      qed
    qed
  qed
qed

lemma encode_dims_declared:
  assumes "\<And>v. leaf_encode P v = Inr (enc v)"
  shows "item_of_type P ty dims item \<Longrightarrow> sizes_resolve P self dims \<Longrightarrow>
     encode_dims P self dims item =
       (if counts_fit P self dims item
        then Inr (concat (map enc (declared_leaves P self dims item)))
        else Inl Size_larger_than_vector)"
proof (induction dims arbitrary: item)
  case Nil
  then show ?case using assms by (cases item) simp_all
next
  case (Cons d rest)
  from Cons.prems(1) obtain xs where item: "item = Seq xs"
    and typed: "list_all (item_of_type P ty rest) xs"
    by (cases item) auto
  from Cons.prems(2) have res: "sizes_resolve P self rest"
    and here: "mode d = LCM_CONST \<or> field_int P self (size_dim d) \<noteq> None"
    by (auto simp: sizes_resolve_def)
  have step: "encode_seq (encode_dims P self rest) ys =
      (if list_all (counts_fit P self rest) ys
       then Inr (concat (map (\<lambda>y. concat (map enc (declared_leaves P self rest y))) ys))
       else Inl Size_larger_than_vector)" if "set ys \<subseteq> set xs" for ys
  proof (rule encode_seq_if)
    fix y assume "y \<in> set ys"
    with that typed have "item_of_type P ty rest y" by (auto simp: list_all_iff)
    then show "encode_dims P self rest y =
        (if counts_fit P self rest y
         then Inr (concat (map enc (declared_leaves P self rest y)))
         else Inl Size_larger_than_vector)"
      using res by (rule Cons.IH)
  qed
  have flat: "concat (map (\<lambda>y. concat (map enc (declared_leaves P self rest y))) ys)
              = concat (map enc (concat (map (declared_leaves P self rest) ys)))" for ys
    by (induction ys) auto
  show ?case
  proof (cases "mode d = LCM_VAR")
    case False
    with item step [of xs] flat show ?thesis by simp
  next
    case True
    with here obtain n where n: "field_int P self (size_dim d) = Some n" by auto
    have "set (take (as_usize n) xs) \<subseteq> set xs" by (rule set_take_subset)
    from step [OF this] item True n flat show ?thesis by simp
  qed
qed

text \<open>
  Claim C3, as amended. For a value of the struct whose leaves all encode without
  error: encode fails, with the error \<^verbatim>\<open>Size is larger than vector\<close>, exactly when at some
  variable dimension it reaches the size field, cast to \<^verbatim>\<open>usize\<close> (so that a negative
  value counts as a huge one), exceeds the length of the container; in every other case
  it succeeds and writes the encodings of exactly the leaves among the first
  declared-count elements of each variable container, in order, leaving out any
  further elements.
\<close>

theorem encode_declared_count:
  assumes typed: "value_of_struct P lcm_struct x"
    and leaves: "\<And>v. leaf_encode P v = Inr (enc v)"
  shows "encode P lcm_struct x =
     (if all_counts_fit P lcm_struct x
      then Inr (concat (map enc (all_declared_leaves P lcm_struct x)))
      else Inl Size_larger_than_vector)"
proof -
  let ?fit = "\<lambda>member. case map_of x (membername member) of
                    None \<Rightarrow> False
                  | Some item \<Rightarrow> counts_fit P (map_of x) (dimensions member) item"
  let ?out = "\<lambda>member. concat (map enc (case map_of x (membername member) of
                              None \<Rightarrow> []
                            | Some item \<Rightarrow> declared_leaves P (map_of x) (dimensions member) item))"
  have "encode_seq (encode_member P (map_of x)) (members lcm_struct) =
      (if list_all ?fit (members lcm_struct)
       then Inr (concat (map ?out (members lcm_struct)))
       else Inl Size_larger_than_vector)"
  proof (rule encode_seq_if)
    fix member assume "member \<in> set (members lcm_struct)"
    with typed obtain item where item: "map_of x (membername member) = Some item"
      and ty: "item_of_type P (type_m member) (dimensions member) item"
      and res: "sizes_resolve P (map_of x) (dimensions member)"
      by (auto simp: value_of_struct_def list_all_iff split: option.splits)
    from encode_dims_declared [of P enc, OF leaves ty res] item
    show "encode_member P (map_of x) member =
        (if ?fit member then Inr (?out member) else Inl Size_larger_than_vector)"
      by (simp add: encode_member_def)
  qed
  moreover have "concat (map ?out ms) =
      concat (map enc (concat (map (\<lambda>member. case map_of x (membername member) of
                              None \<Rightarrow> []
                            | Some item \<Rightarrow> declared_leaves P (map_of x) (dimensions member) item) ms)))"
    for ms by (induction ms) auto
  then have "concat (map ?out (members lcm_struct))
             = concat (map enc (all_declared_leaves P lcm_struct x))"
    unfolding all_declared_leaves_def .
  ultimately show ?thesis
    unfolding encode_def all_counts_fit_def by (simp only:)
qed

text \<open>
  The theorem at the scenario struct with a count of 2 and three values: the value is of
  the struct's type, the count fits, and encode writes the count and the first two
  values.
\<close>

theorem encode_declared_count_witness:
  "value_of_struct int8_impls reading_t reading_value
   \<and> all_counts_fit int8_impls reading_t reading_value
   \<and> all_declared_leaves int8_impls reading_t reading_value = [2, 7, 8]
   \<and> encode int8_impls reading_t reading_value = Inr [2, 7, 8]"
proof -
  have typed: "value_of_struct int8_impls reading_t reading_value"
    by (simp add: eval_defs)
  have fit: "all_counts_fit int8_impls reading_t reading_value"
    by (simp add: eval_defs)
  have leaves: "all_declared_leaves int8_impls reading_t reading_value = [2, 7, 8]"
    by (simp add: eval_defs)
  have "leaf_encode int8_impls v = Inr [v]" for v
    by (simp add: int8_impls_def)
  from encode_declared_count [OF typed this] fit leaves
  have "encode int8_impls reading_t reading_value = Inr [2, 7, 8]" by simp
  with typed fit leaves show ?thesis by simp
qed

text \<open>
  Claim C3 as stated fails where the size field is negative: with a count of \<open>- 1\<close> and
  an empty sequence the size field is less than the container's length, and encode
  fails, because \<^verbatim>\<open>- 1 as usize\<close> is \<open>2^64 - 1\<close>.
\<close>

theorem encode_negative_count_fails:
  "leaf_int int8_impls (- 1) = Some (- 1)
   \<and> (- 1 :: int) \<le> int (length ([] :: byte item list))
   \<and> encode int8_impls reading_t [(''count'', Leaf (- 1)), (''values'', Seq [])]
       = Inl Size_larger_than_vector"
  by (simp add: demo_defs)

text \<open>
  Claim C4, as amended. A container that holds more elements than its size field
  declares is no error: encode never looks past the declared count, so its result,
  error or bytes, is that for the value with every variable container cut to its first
  declared-count elements; in particular, once a container holds the declared count,
  further trailing elements change nothing. (The error of line 438 is the opposite
  case, a size field that exceeds the container's length.)
\<close>

theorem encode_ignores_trailing_elements:
  "encode_dims P self dims (declared_prefix P self dims item) = encode_dims P self dims item
   \<and> (mode d = LCM_VAR \<longrightarrow> field_int P self (size_dim d) = Some n \<longrightarrow> as_usize n \<le> length xs \<longrightarrow>
        encode_dims P self (d # ds) (Seq (xs @ extra)) = encode_dims P self (d # ds) (Seq xs))"
  by (simp add: encode_dims_declared_prefix)

text \<open>
  The theorem at the scenario struct: with a count of 2, the sequence of three values
  encodes as the sequence of its first two.
\<close>

theorem encode_ignores_trailing_elements_witness:
  "encode_dims int8_impls (map_of reading_value) [\<lparr>mode = LCM_VAR, size_dim = ''count''\<rparr>]
       (Seq ([Leaf 7, Leaf 8] @ [Leaf 9]))
     = encode_dims int8_impls (map_of reading_value) [\<lparr>mode = LCM_VAR, size_dim = ''count''\<rparr>]
         (Seq [Leaf 7, Leaf 8])
   \<and> encode_dims int8_impls (map_of reading_value) [\<lparr>mode = LCM_VAR, size_dim = ''count''\<rparr>]
         (Seq [Leaf 7, Leaf 8]) = Inr [7, 8]"
proof -
  have var: "mode \<lparr>mode = LCM_VAR, size_dim = ''count''\<rparr> = LCM_VAR" by simp
  have n: "field_int int8_impls (map_of reading_value)
             (size_dim \<lparr>mode = LCM_VAR, size_dim = ''count''\<rparr>) = Some 2"
    by (simp add: eval_defs)
  have len: "as_usize 2 \<le> length [Leaf (7 :: byte), Leaf 8]"
    by (simp add: as_usize_def)
  have out: "encode_dims int8_impls (map_of reading_value) [\<lparr>mode = LCM_VAR, size_dim = ''count''\<rparr>]
         (Seq [Leaf 7, Leaf 8]) = Inr [7, 8]"
    by (simp add: eval_defs)
  from encode_ignores_trailing_elements
    [of int8_impls "map_of reading_value" "[]" "Leaf 0" "\<lparr>mode = LCM_VAR, size_dim = ''count''\<rparr>"
       2 "[Leaf 7, Leaf 8]" "[]" "[Leaf 9]"]
    var n len
  have "encode_dims int8_impls (map_of reading_value) [\<lparr>mode = LCM_VAR, size_dim = ''count''\<rparr>]
       (Seq ([Leaf 7, Leaf 8] @ [Leaf 9]))
     = encode_dims int8_impls (map_of reading_value) [\<lparr>mode = LCM_VAR, size_dim = ''count''\<rparr>]
         (Seq [Leaf 7, Leaf 8])"
    by blast
  with out show ?thesis by simp
qed

text \<open>
  Claim C4 as stated fails: with a count of 2 and a sequence of three values, the
  container holds more elements than the size field declares, and encode succeeds.
\<close>

theorem encode_longer_container_succeeds:
  "leaf_int int8_impls 2 = Some 2
   \<and> (2 :: int) < int (length [Leaf (7 :: byte), Leaf 8, Leaf 9])
   \<and> encode int8_impls reading_t [(''count'', Leaf 2), (''values'', Seq [Leaf 7, Leaf 8, Leaf 9])]
       = Inr [2, 7, 8]"
  by (simp add: demo_defs)

section \<open>Properties of the size routine\<close>

lemma as_usize_declared:
  "field_int P self name = Some (int k) \<Longrightarrow> as_usize (int k) = k"
  by (auto simp: field_int_def rust_int_def as_usize_def
      split: option.splits item.splits if_splits)

lemma encode_dims_exact:
  assumes "counts_exact P self (d # rest) (Seq zs)"
  shows "encode_dims P self (d # rest) (Seq zs) = encode_seq (encode_dims P self rest) zs"
proof (cases "mode d = LCM_VAR")
  case True
  with assms have "field_int P self (size_dim d) = Some (int (length zs))" by auto
  with True as_usize_declared [OF this] show ?thesis by simp
next
  case False
  then show ?thesis by simp
qed

lemma into_iter_all_exact:
  "\<lbrakk>\<And>x. x \<in> set xs \<Longrightarrow> counts_exact P self (d # rest) x;
    encode_seq (encode_dims P self (d # rest)) xs = Inr bs\<rbrakk> \<Longrightarrow>
   \<exists>ys. into_iter_all xs = Inr ys
        \<and> encode_seq (encode_dims P self rest) ys = Inr bs
        \<and> (\<forall>y \<in> set ys. counts_exact P self rest y)"
proof (induction xs arbitrary: bs)
  case Nil
  then show ?case by simp
next
  case (Cons x xs)
  from Cons.prems(1) [of x] obtain zs where x: "x = Seq zs"
    and zs: "list_all (counts_exact P self rest) zs"
    and ex: "counts_exact P self (d # rest) (Seq zs)"
    by (cases x) auto
  from Cons.prems(2) x encode_dims_exact [OF ex]
  obtain b bs' where b: "encode_seq (encode_dims P self rest) zs = Inr b"
    and bs': "encode_seq (encode_dims P self (d # rest)) xs = Inr bs'"
    and bs: "bs = b @ bs'"
    by (auto split: sum.splits)
  from Cons.IH [OF _ bs'] Cons.prems(1)
  obtain ys where ys: "into_iter_all xs = Inr ys"
    and enc: "encode_seq (encode_dims P self rest) ys = Inr bs'"
    and exact: "\<forall>y \<in> set ys. counts_exact P self rest y"
    by auto
  have "into_iter_all (x # xs) = Inr (zs @ ys)" using x ys by simp
  moreover have "encode_seq (encode_dims P self rest) (zs @ ys) = Inr bs"
    using b enc bs by (simp add: encode_seq_append)
  moreover have "\<forall>y \<in> set (zs @ ys). counts_exact P self rest y"
    using zs exact by (auto simp: list_all_iff)
  ultimately show ?case by blast
qed

lemma sum_sizes_leaves:
  assumes law: "\<And>v b. leaf_encode P v = Inr b \<Longrightarrow> leaf_size P v = length b"
  shows "encode_seq (encode_dims P self []) xs = Inr bs \<Longrightarrow> sum_sizes P xs = Inr (length bs)"
proof (induction xs arbitrary: bs)
  case Nil
  then show ?case by simp
next
  case (Cons x xs)
  from Cons.prems obtain v b bs' where x: "x = Leaf v" and b: "leaf_encode P v = Inr b"
    and bs': "encode_seq (encode_dims P self []) xs = Inr bs'" and bs: "bs = b @ bs'"
    by (cases x) (auto split: sum.splits)
  from Cons.IH [OF bs'] law [OF b] x bs show ?case by simp
qed

lemma flat_maps_sizes:
  assumes law: "\<And>v b. leaf_encode P v = Inr b \<Longrightarrow> leaf_size P v = length b"
  shows "\<lbrakk>\<And>x. x \<in> set xs \<Longrightarrow> counts_exact P self ds x;
          encode_seq (encode_dims P self ds) xs = Inr bs\<rbrakk> \<Longrightarrow>
     \<exists>leaves. flat_maps (length ds) xs = Inr leaves \<and> sum_sizes P leaves = Inr (length bs)"
proof (induction ds arbitrary: xs bs)
  case Nil
  then show ?case using sum_sizes_leaves [OF law] by simp
next
  case (Cons d rest)
  from into_iter_all_exact [OF Cons.prems]
  obtain ys where ys: "into_iter_all xs = Inr ys"
    and enc: "encode_seq (encode_dims P self rest) ys = Inr bs"
    and exact: "\<forall>y \<in> set ys. counts_exact P self rest y"
    by blast
  from Cons.IH [OF _ enc] exact
  obtain leaves where "flat_maps (length rest) ys = Inr leaves"
    and "sum_sizes P leaves = Inr (length bs)"
    by blast
  with ys show ?case by simp
qed

lemma size_member_exact:
  assumes law: "\<And>v b. leaf_encode P v = Inr b \<Longrightarrow> leaf_size P v = length b"
    and item: "self (membername member) = Some item"
    and exact: "counts_exact P self (dimensions member) item"
    and enc: "encode_member P self member = Inr b"
  shows "size_member P self member = Inr (length b)"
proof (cases "dimensions member")
  case Nil
  with enc item obtain v where "item = Leaf v" and "leaf_encode P v = Inr b"
    by (cases item) (auto simp: encode_member_def)
  with law [of v b] Nil item show ?thesis by (simp add: size_member_def)
next
  case (Cons d rest)
  with exact obtain xs where xs: "item = Seq xs"
    and inner: "list_all (counts_exact P self rest) xs"
    and ex: "counts_exact P self (d # rest) (Seq xs)"
    by (cases item) auto
  from enc item Cons xs encode_dims_exact [OF ex]
  have "encode_seq (encode_dims P self rest) xs = Inr b"
    by (simp add: encode_member_def)
  from flat_maps_sizes [OF law _ this] inner
  obtain leaves where "flat_maps (length rest) xs = Inr leaves"
    and "sum_sizes P leaves = Inr (length b)"
    by (auto simp: list_all_iff)
  with Cons item xs show ?thesis by (simp add: size_member_def)
qed

lemma size_members_exact:
  assumes law: "\<And>v b. leaf_encode P v = Inr b \<Longrightarrow> leaf_size P v = length b"
  shows "\<lbrakk>list_all (\<lambda>member. case self (membername member) of
                    None \<Rightarrow> False
                  | Some item \<Rightarrow> counts_exact P self (dimensions member) item) ms;
          encode_seq (encode_member P self) ms = Inr bytes\<rbrakk> \<Longrightarrow>
     size_members P self ms = Inr (length bytes)"
proof (induction ms arbitrary: bytes)
  case Nil
  then show ?case by simp
next
  case (Cons m ms)
  from Cons.prems(1) obtain item where item: "self (membername m) = Some item"
    and exact: "counts_exact P self (dimensions m) item"
    and rest: "list_all (\<lambda>member. case self (membername member) of
                    None \<Rightarrow> False
                  | Some item \<Rightarrow> counts_exact P self (dimensions member) item) ms"
    by (auto split: option.splits)
  from Cons.prems(2) obtain b bs where b: "encode_member P self m = Inr b"
    and bs: "encode_seq (encode_member P self) ms = Inr bs" and bytes: "bytes = b @ bs"
    by (auto split: sum.splits)
  from size_member_exact [OF law item exact b] Cons.IH [OF rest bs] bytes
  show ?case by simp
qed

text \<open>
  Where every variable container holds exactly as many elements as its size field
  declares, and the \<^verbatim>\<open>size()\<close> of a leaf is the number of bytes the leaf writes, the
  size routine returns the number of bytes encode writes, whatever the sizes of the
  individual leaves.
\<close>

lemma size_message_exact_counts:
  assumes "all_counts_exact P lcm_struct x"
    and "\<And>v b. leaf_encode P v = Inr b \<Longrightarrow> leaf_size P v = length b"
    and "encode P lcm_struct x = Inr bytes"
  shows "size_message P lcm_struct x = Inr (length bytes)"
  using size_members_exact [of P "map_of x" "members lcm_struct" bytes] assms
  by (simp add: all_counts_exact_def encode_def size_message_def)

text \<open>
  At a value of the struct with nested dimensions the counts are exact, encode writes
  four bytes and the size routine returns 4.
\<close>

lemma size_message_exact_counts_grid:
  "all_counts_exact int8_impls grid_t grid_value
   \<and> encode int8_impls grid_t grid_value = Inr [1, 5, 6, 7]
   \<and> size_message int8_impls grid_t grid_value = Inr (length [1 :: byte, 5, 6, 7])"
proof -
  have exact: "all_counts_exact int8_impls grid_t grid_value"
    by (simp add: eval_defs)
  have enc: "encode int8_impls grid_t grid_value = Inr [1, 5, 6, 7]"
    by (simp add: eval_defs)
  have law: "leaf_size int8_impls v = length b" if "leaf_encode int8_impls v = Inr b" for v b
    using that by (auto simp: int8_impls_def)
  from size_message_exact_counts [OF exact law enc] exact enc show ?thesis by simp
qed

text \<open>
  Claim C5: for every value, the size routine returns exactly the number of bytes that
  encode writes. The code departs from it on a value that encode accepts. The emitted
  encode routine stops at the declared count (\<^verbatim>\<open>.take(self.count as usize)\<close>, line 440)
  and the emitted decode routine reads the declared count (\<^verbatim>\<open>0..count\<close>, line 483), but
  the size expression of lines 531 to 543 sums over the whole container and never reads
  the size field (compare \<open>emit_encode_reading\<close> and \<open>emit_size_reading\<close>). At the
  scenario struct, with a count of 2 and the three values 7, 8 and 9, encode writes the
  three bytes 2, 7, 8 and the size routine returns 4.
\<close>

theorem size_counts_trailing_elements:
  "encode int8_impls reading_t reading_value = Inr [2, 7, 8]
   \<and> size_message int8_impls reading_t reading_value = Inr 4
   \<and> length [2 :: byte, 7, 8] \<noteq> 4"
  by (simp add: eval_defs)

section \<open>Properties of the decode routine\<close>

text \<open>
  The emitted text is the rendered expression tree: for one member from any index on,
  for a whole binding, and for the list of bindings.
\<close>

lemma decode_recursive_render:
  "dim \<le> length (dimensions member) \<Longrightarrow>
   emit_impl_message_decode_recursive member dim =
     map_option (render_decode dim)
       (decode_expr_of (dim = 0 \<or> mode (dimensions member ! (dim - 1)) = LCM_CONST)
          (drop dim (dimensions member)))"
proof (induction member dim rule: emit_impl_message_decode_recursive.induct)
  case (1 member dim)
  let ?dims = "dimensions member"
  let ?q = "dim = 0 \<or> mode (?dims ! (dim - 1)) = LCM_CONST"
  show ?case
  proof (cases "dim = length ?dims")
    case True
    then show ?thesis
      by (subst emit_impl_message_decode_recursive.simps) simp
  next
    case False
    with "1.prems" have lt: "dim < length ?dims" by simp
    then have d: "drop dim ?dims = ?dims ! dim # drop (Suc dim) ?dims"
      by (simp add: Cons_nth_drop_Suc)
    have nlt: "\<not> length ?dims < dim" using lt by simp
    show ?thesis
    proof (cases "mode (?dims ! dim)")
      case LCM_CONST
      show ?thesis
      proof (cases "loop_count (size_dim (?dims ! dim))")
        case None
        with False nlt LCM_CONST d show ?thesis
          by (subst emit_impl_message_decode_recursive.simps) simp
      next
        case (Some n)
        show ?thesis
        proof (cases "n = 0")
          case True
          with False nlt LCM_CONST Some d show ?thesis
            by (subst emit_impl_message_decode_recursive.simps) simp
        next
          case nz: False
          have ih: "emit_impl_message_decode_recursive member (dim + 1) =
              map_option (render_decode (dim + 1)) (decode_expr_of True (drop (dim + 1) ?dims))"
            using "1.IH"(1) [OF False nlt LCM_CONST Some nz] lt LCM_CONST by simp
          have rep: "concat (map (\<lambda>element. render_decode (Suc dim) element @ emit_continue '','')
                        (replicate n e))
                     = concat (replicate n (render_decode (Suc dim) e @ emit_continue '',''))"
            for e by (simp add: map_replicate)
          from False nlt LCM_CONST Some nz d ih rep show ?thesis
            by (subst emit_impl_message_decode_recursive.simps)
               (cases "decode_expr_of True (drop (Suc dim) ?dims)"; simp)
        qed
      qed
    next
      case LCM_VAR
      have ih: "emit_impl_message_decode_recursive member (dim + 1) =
          map_option (render_decode (dim + 1)) (decode_expr_of False (drop (dim + 1) ?dims))"
        using "1.IH"(2) [OF False nlt LCM_VAR] lt LCM_VAR by simp
      from False nlt LCM_VAR d ih show ?thesis
        by (subst emit_impl_message_decode_recursive.simps)
           (cases "decode_expr_of False (drop (Suc dim) ?dims)"; simp)
    qed
  qed
qed

lemma emit_decode_member_render:
  "emit_decode_member member = map_option render_let (decode_let member)"
  using decode_recursive_render [of 0 member]
  by (cases "decode_expr_of True (dimensions member)")
     (simp_all add: emit_decode_member_def decode_let_def render_let_def)

lemma those_map_option:
  "those (map (\<lambda>x. map_option f (g x)) xs) = map_option (map f) (those (map g xs))"
  by (induction xs) (auto simp: option.map_comp comp_def split: option.splits)

lemma emit_decode_lets:
  "those (map emit_decode_member (members lcm_struct))
     = map_option (map render_let) (decode_lets lcm_struct)"
proof -
  have "emit_decode_member = (\<lambda>member. map_option render_let (decode_let member))"
    by (rule ext) (rule emit_decode_member_render)
  then have "those (map emit_decode_member (members lcm_struct))
      = those (map (\<lambda>member. map_option render_let (decode_let member)) (members lcm_struct))"
    by (rule arg_cong)
  also have "\<dots> = map_option (map render_let) (those (map decode_let (members lcm_struct)))"
    by (rule those_map_option)
  finally show ?thesis by (simp only: decode_lets_def)
qed

lemma emit_impl_message_decode_render:
  "emit_impl_message_decode lcm_struct =
     map_option
       (\<lambda>lets.
          emit 1 (''fn decode('' @ (if length (members lcm_struct) \<noteq> 0 then ''mut buffer'' else ''_'')
                  @ '': &mut Read) -> Result<Self> {'') @
          concat (map render_let lets) @
          emit 2 (''Ok('' @ make_rust_type_name (structname lcm_struct) @ '' {'') @
          concat (map (\<lambda>member. emit 3 (membername member @ '': '' @ membername member @ '',''))
                    (members lcm_struct)) @
          emit 2 ''})'' @
          emit 1 ''}'' @
          emit 0 [])
       (decode_lets lcm_struct)"
  by (cases "decode_lets lcm_struct")
     (simp_all add: emit_impl_message_decode_def emit_decode_lets Let_def)

lemma decode_seq_replicate:
  assumes "\<And>x b rest. x \<in> set xs \<Longrightarrow> enc x = Inr b \<Longrightarrow> dec (b @ rest) = Inr (x, rest)"
  shows "encode_seq enc xs = Inr bs \<Longrightarrow>
         decode_seq (replicate (length xs) dec) (bs @ rest) = Inr (xs, rest)"
  using assms
proof (induction xs arbitrary: bs)
  case Nil
  then show ?case by simp
next
  case (Cons x xs)
  from Cons.prems(1) obtain b bs' where b: "enc x = Inr b"
    and bs': "encode_seq enc xs = Inr bs'" and bs: "bs = b @ bs'"
    by (auto split: sum.splits)
  have "dec (b @ bs' @ rest) = Inr (x, bs' @ rest)"
    using Cons.prems(2) [of x b "bs' @ rest"] b by simp
  moreover have "decode_seq (replicate (length xs) dec) (bs' @ rest) = Inr (xs, rest)"
    using Cons.IH [OF bs'] Cons.prems(2) by simp
  ultimately show ?case using bs by simp
qed

lemma isdigit_not_sign: "isdigit c \<Longrightarrow> \<not> isspace c \<and> c \<noteq> CHR ''-'' \<and> c \<noteq> CHR ''+''"
  by (auto simp: isdigit_def isspace_def)

lemma sscanf_d_plain_decimal:
  assumes "plain_decimal s"
  shows "sscanf_d s = (if int (decimal_value 0 s) < 2 ^ 31 then Some (int (decimal_value 0 s)) else None)"
proof -
  from assms obtain c cs where s: "s = c # cs" and c: "isdigit c" and all: "list_all isdigit s"
    by (cases s) (auto simp: plain_decimal_def)
  from c have nsp: "\<not> isspace c" and nm: "c \<noteq> CHR ''-''" and np: "c \<noteq> CHR ''+''"
    using isdigit_not_sign by auto
  have dw: "dropWhile isspace s = s" using s nsp by simp
  have tw: "takeWhile isdigit s = s" using all by (simp add: takeWhile_eq_all_conv list_all_iff)
  have tw': "takeWhile isdigit cs = cs" using all s by (simp add: takeWhile_eq_all_conv list_all_iff)
  have nonneg: "- (2 ^ 31) \<le> int (decimal_value 0 s)"
    by (rule order_trans [of _ 0]) simp_all
  show ?thesis
    unfolding sscanf_d_def dw Let_def
    using s c nm np nonneg by (simp add: tw')
qed

lemma loop_count_plain_decimal:
  "plain_decimal s \<Longrightarrow> loop_count s = Some n \<Longrightarrow> n = decimal_value 0 s"
  by (auto simp: loop_count_def sscanf_d_plain_decimal split: if_splits)

lemma eval_decode_round_trip:
  assumes law: "\<And>ty v b rest. leaf_has_type P ty v \<Longrightarrow> leaf_encode P v = Inr b \<Longrightarrow>
                  leaf_decode P ty (b @ rest) = Inr (v, rest)"
  shows "\<lbrakk>decode_expr_of q dims = Some e;
          item_of_type P ty dims item;
          counts_exact P self dims item;
          \<And>name. name \<in> set (range_names e) \<Longrightarrow> field_int P env name = field_int P self name;
          encode_dims P self dims item = Inr b\<rbrakk> \<Longrightarrow>
         eval_decode P env ty e (b @ rest) = Inr (item, rest)"
proof (induction dims arbitrary: q e item b rest)
  case Nil
  from Nil.prems(2) obtain v where item: "item = Leaf v" and ty: "leaf_has_type P ty v"
    by (cases item) auto
  from Nil.prems(5) item have "leaf_encode P v = Inr b" by simp
  from law [OF ty this] have "leaf_decode P ty (b @ rest) = Inr (v, rest)" .
  moreover from Nil.prems(1) have "e = Decode_leaf q" by simp
  ultimately show ?case using item by simp
next
  case (Cons d ds)
  from Cons.prems(2) obtain xs where item: "item = Seq xs"
    and typed: "list_all (item_of_type P ty ds) xs"
    and len: "mode d = LCM_VAR \<or> plain_decimal (size_dim d) \<and> decimal_value 0 (size_dim d) = length xs"
    by (cases item) auto
  from Cons.prems(3) item have exact: "list_all (counts_exact P self ds) xs"
    and ex: "counts_exact P self (d # ds) (Seq xs)"
    by auto
  from Cons.prems(5) item encode_dims_exact [OF ex]
  have enc: "encode_seq (encode_dims P self ds) xs = Inr b" by simp
  show ?case
  proof (cases "mode d")
    case LCM_CONST
    with len have dec: "plain_decimal (size_dim d)" and n: "decimal_value 0 (size_dim d) = length xs"
      by auto
    from Cons.prems(1) LCM_CONST obtain n' where n': "loop_count (size_dim d) = Some n'"
      by (auto split: option.splits)
    from loop_count_plain_decimal [OF dec n'] n have "n' = length xs" by simp
    with n' have lc: "loop_count (size_dim d) = Some (length xs)" by simp
    show ?thesis
    proof (cases "length xs = 0")
      case True
      with Cons.prems(1) LCM_CONST lc have "e = Array_literal []" by simp
      with True enc item show ?thesis by simp
    next
      case False
      with Cons.prems(1) LCM_CONST lc obtain e' where e': "decode_expr_of True ds = Some e'"
        and e: "e = Array_literal (replicate (length xs) e')"
        by auto
      have names: "set (range_names e') \<subseteq> set (range_names e)"
        using e False by (cases "length xs") auto
      have nm: "field_int P env name = field_int P self name"
        if "name \<in> set (range_names e')" for name
        using that names by (intro Cons.prems(4)) blast
      have "decode_seq (replicate (length xs) (eval_decode P env ty e')) (b @ rest) = Inr (xs, rest)"
      proof (rule decode_seq_replicate [OF _ enc])
        fix x bx r assume x: "x \<in> set xs" and bx: "encode_dims P self ds x = Inr bx"
        have tx: "item_of_type P ty ds x" using typed x by (simp add: list_all_iff)
        have ex: "counts_exact P self ds x" using exact x by (simp add: list_all_iff)
        show "eval_decode P env ty e' (bx @ r) = Inr (x, r)"
          by (rule Cons.IH [OF e' tx ex nm bx])
      qed
      with e item show ?thesis by (simp add: map_replicate)
    qed
  next
    case LCM_VAR
    with Cons.prems(1) obtain body where body: "decode_expr_of False ds = Some body"
      and e: "e = Range_collect (size_dim d) body q"
      by auto
    from ex LCM_VAR have n: "field_int P self (size_dim d) = Some (int (length xs))" by simp
    have "field_int P env (size_dim d) = field_int P self (size_dim d)"
      using e by (intro Cons.prems(4)) simp
    with n have n': "field_int P env (size_dim d) = Some (int (length xs))" by simp
    have nm: "field_int P env name = field_int P self name"
      if "name \<in> set (range_names body)" for name
      using that e by (intro Cons.prems(4)) simp
    have "decode_seq (replicate (length xs) (eval_decode P env ty body)) (b @ rest) = Inr (xs, rest)"
    proof (rule decode_seq_replicate [OF _ enc])
      fix x bx r assume x: "x \<in> set xs" and bx: "encode_dims P self ds x = Inr bx"
      have tx: "item_of_type P ty ds x" using typed x by (simp add: list_all_iff)
      have ex: "counts_exact P self ds x" using exact x by (simp add: list_all_iff)
      show "eval_decode P env ty body (bx @ r) = Inr (x, r)"
        by (rule Cons.IH [OF body tx ex nm bx])
    qed
    with e item n' show ?thesis by simp
  qed
qed

lemma map_of_prefix:
  "name \<in> set (map fst pre) \<Longrightarrow> map_of (pre @ suf) name = map_of pre name"
  by (auto simp: map_add_def split: option.splits dest: map_of_SomeD weak_map_of_SomeI
      simp: map_of_eq_None_iff)

lemma run_lets_round_trip:
  assumes law: "\<And>ty v b rest. leaf_has_type P ty v \<Longrightarrow> leaf_encode P v = Inr b \<Longrightarrow>
                  leaf_decode P ty (b @ rest) = Inr (v, rest)"
  shows "\<lbrakk>those (map decode_let ms) = Some lets;
          lets_in_scope (map fst pre) lets;
          map fst suf = map membername ms;
          distinct (map fst (pre @ suf));
          \<And>m. m \<in> set ms \<Longrightarrow>
             \<exists>item. map_of (pre @ suf) (membername m) = Some item
                  \<and> item_of_type P (type_m m) (dimensions m) item
                  \<and> counts_exact P (map_of (pre @ suf)) (dimensions m) item;
          encode_seq (encode_member P (map_of (pre @ suf))) ms = Inr bytes\<rbrakk> \<Longrightarrow>
         run_lets P pre lets (bytes @ rest) = Inr (pre @ suf, rest)"
proof (induction ms arbitrary: lets pre suf bytes)
  case Nil
  then show ?case by simp
next
  case (Cons m ms)
  let ?self = "map_of (pre @ suf)"
  from Cons.prems(3) obtain item suf' where suf: "suf = (membername m, item) # suf'"
    and suf': "map fst suf' = map membername ms"
    by (cases suf) auto
  from Cons.prems(1) obtain binding lets' where binding: "decode_let m = Some binding"
    and lets0: "lets = binding # lets'"
    and lets': "those (map decode_let ms) = Some lets'"
    by (auto split: option.splits)
  from binding obtain e where e: "decode_expr_of True (dimensions m) = Some e"
    and "binding = (membername m, type_m m, e)"
    by (auto simp: decode_let_def)
  with lets0 have lets: "lets = (membername m, type_m m, e) # lets'" by simp
  from Cons.prems(2) lets
  have scope: "\<And>name. name \<in> set (range_names e) \<Longrightarrow> name \<in> set (map fst pre)"
    and scope': "lets_in_scope (map fst (pre @ [(membername m, item)])) lets'"
    by (auto simp: list_all_iff)
  from Cons.prems(4) suf have fresh: "membername m \<notin> set (map fst pre)" by auto
  then have "map_of pre (membername m) = None" by (simp add: map_of_eq_None_iff)
  then have here: "?self (membername m) = Some item"
    using suf by (simp add: map_add_def)
  with Cons.prems(5) [of m]
  have typed: "item_of_type P (type_m m) (dimensions m) item"
    and exact: "counts_exact P ?self (dimensions m) item"
    by auto
  from Cons.prems(6) obtain b bs where b0: "encode_member P ?self m = Inr b"
    and bs: "encode_seq (encode_member P ?self) ms = Inr bs" and bytes: "bytes = b @ bs"
    by (auto split: sum.splits)
  from b0 here have b: "encode_dims P ?self (dimensions m) item = Inr b"
    by (simp add: encode_member_def)
  have same: "field_int P (map_of pre) name = field_int P ?self name"
    if "name \<in> set (range_names e)" for name
    using map_of_prefix [OF scope [OF that], of suf] by (simp add: field_int_def)
  have step: "eval_decode P (map_of pre) (type_m m) e (b @ bs @ rest) = Inr (item, bs @ rest)"
    by (rule eval_decode_round_trip [OF law e typed exact same b])
  have eq: "(pre @ [(membername m, item)]) @ suf' = pre @ suf" using suf by simp
  have "run_lets P (pre @ [(membername m, item)]) lets' (bs @ rest)
        = Inr ((pre @ [(membername m, item)]) @ suf', rest)"
  proof (rule Cons.IH [OF lets' scope' suf'])
    show "distinct (map fst ((pre @ [(membername m, item)]) @ suf'))"
      using Cons.prems(4) unfolding eq .
    show "\<exists>item'. map_of ((pre @ [(membername m, item)]) @ suf') (membername m') = Some item'
             \<and> item_of_type P (type_m m') (dimensions m') item'
             \<and> counts_exact P (map_of ((pre @ [(membername m, item)]) @ suf')) (dimensions m') item'"
      if "m' \<in> set ms" for m'
      using Cons.prems(5) [of m'] that unfolding eq by simp
    show "encode_seq (encode_member P (map_of ((pre @ [(membername m, item)]) @ suf'))) ms = Inr bs"
      using bs unfolding eq .
  qed
  with step lets bytes eq show ?case by simp
qed

text \<open>
  Claim C6, as amended. Let the emitted decode routine be valid Rust (every variable
  dimension reads a size field declared earlier, and no variable dimension is directly
  followed by a constant one), let \<open>x\<close> be a value of the struct in which each variable
  container holds exactly as many elements as its size field declares, and let the leaf
  implementations decode what they encode. Then decoding the bytes that encode wrote
  for \<open>x\<close>, followed by any further input, yields \<open>x\<close> and leaves that further input: for
  scalar members, fixed arrays and sequences, nested in these ways.
\<close>

theorem decode_encode_round_trip:
  assumes typed: "value_of_struct P lcm_struct x"
    and exact: "all_counts_exact P lcm_struct x"
    and lets: "decode_lets lcm_struct = Some lets"
    and valid: "decode_is_valid_rust lets"
    and law: "\<And>ty v b rest. leaf_has_type P ty v \<Longrightarrow> leaf_encode P v = Inr b \<Longrightarrow>
                leaf_decode P ty (b @ rest) = Inr (v, rest)"
    and enc: "encode P lcm_struct x = Inr bytes"
  shows "decode P lcm_struct (bytes @ rest) = Inr (x, rest)"
proof -
  have "run_lets P [] lets (bytes @ rest) = Inr ([] @ x, rest)"
  proof (rule run_lets_round_trip [OF law])
    show "those (map decode_let (members lcm_struct)) = Some lets"
      using lets by (simp add: decode_lets_def)
    show "lets_in_scope (map fst []) lets"
      using valid by (simp add: decode_is_valid_rust_def)
    show "map fst x = map membername (members lcm_struct)"
      using typed by (simp add: value_of_struct_def)
    show "distinct (map fst ([] @ x))"
      using typed by (simp add: value_of_struct_def)
    show "\<exists>item. map_of ([] @ x) (membername m) = Some item
             \<and> item_of_type P (type_m m) (dimensions m) item
             \<and> counts_exact P (map_of ([] @ x)) (dimensions m) item"
      if "m \<in> set (members lcm_struct)" for m
    proof -
      from typed that have "case map_of x (membername m) of
                       None \<Rightarrow> False
                     | Some item \<Rightarrow>
                         item_of_type P (type_m m) (dimensions m) item
                         \<and> sizes_resolve P (map_of x) (dimensions m)"
        unfolding value_of_struct_def list_all_iff by blast
      moreover from exact that have "case map_of x (membername m) of
                    None \<Rightarrow> False
                  | Some item \<Rightarrow> counts_exact P (map_of x) (dimensions m) item"
        unfolding all_counts_exact_def list_all_iff by blast
      ultimately show ?thesis by (cases "map_of x (membername m)") simp_all
    qed
    show "encode_seq (encode_member P (map_of ([] @ x))) (members lcm_struct) = Inr bytes"
      using enc by (simp add: encode_def)
  qed
  with lets valid show ?thesis by (simp add: decode_def)
qed

text \<open>
  The theorem at a struct with a scalar, a fixed array of sequences and a sequence of
  sequences.
\<close>

theorem decode_encode_round_trip_witness:
  "value_of_struct int8_impls grid_t grid_value
   \<and> all_counts_exact int8_impls grid_t grid_value
   \<and> encode int8_impls grid_t grid_value = Inr [1, 5, 6, 7]
   \<and> decode int8_impls grid_t ([1, 5, 6, 7] @ [9]) = Inr (grid_value, [9])"
proof -
  let ?lets = "[(''n'', int8_t, Decode_leaf True),
      (''cells'', int8_t,
        Array_literal [Range_collect ''n'' (Decode_leaf False) True,
                       Range_collect ''n'' (Decode_leaf False) True]),
      (''rows'', int8_t, Range_collect ''n'' (Range_collect ''n'' (Decode_leaf False) False) True)]"
  have typed: "value_of_struct int8_impls grid_t grid_value"
    by (simp add: eval_defs)
  have exact: "all_counts_exact int8_impls grid_t grid_value"
    by (simp add: eval_defs)
  have lets: "decode_lets grid_t = Some ?lets"
    by (simp add: eval_defs eval_nat_numeral)
  have valid: "decode_is_valid_rust ?lets"
    by (simp add: decode_is_valid_rust_def)
  have law: "leaf_decode int8_impls ty (b @ rest) = Inr (v, rest)"
    if "leaf_has_type int8_impls ty v" and "leaf_encode int8_impls v = Inr b" for ty v b rest
    using that by (auto simp: int8_impls_def)
  have enc: "encode int8_impls grid_t grid_value = Inr [1, 5, 6, 7]"
    by (simp add: eval_defs)
  from decode_encode_round_trip [OF typed exact lets valid law enc, of "[9]"] typed exact enc
  show ?thesis by simp
qed

text \<open>
  Claim C6 as stated fails on a value built directly with trailing elements: with a
  count of 2 and three values, encode writes the count and two values, and decoding
  these bytes yields a sequence of two values, not the value encoded.
\<close>

theorem round_trip_drops_trailing_elements:
  "encode int8_impls reading_t reading_value = Inr [2, 7, 8]
   \<and> decode int8_impls reading_t [2, 7, 8]
       = Inr ([(''count'', Leaf 2), (''values'', Seq [Leaf 7, Leaf 8])], [])
   \<and> [(''count'', Leaf 2), (''values'', Seq [Leaf 7, Leaf (8 :: byte)])] \<noteq> reading_value"
  by (simp add: eval_defs eval_nat_numeral)

text \<open>
  Where a variable dimension is directly followed by a constant one, as in a sequence of
  fixed arrays, the closure's body is the array literal, a value and not a \<^verbatim>\<open>Result\<close>:
  the emitted routine is not valid Rust.
\<close>

lemma decode_sequence_of_arrays_not_valid_rust:
  "decode_lets points_t
     = Some [(''n'', int8_t, Decode_leaf True),
             (''xyz'', int8_t,
               Range_collect ''n''
                 (Array_literal [Decode_leaf True, Decode_leaf True, Decode_leaf True]) True)]
   \<and> (\<forall>input. decode int8_impls points_t input = Inl Not_valid_rust)"
  by (simp add: eval_defs eval_nat_numeral)

lemma decode_seq_length:
  "decode_seq fs input = Inr (vs, r) \<Longrightarrow> length vs = length fs"
  by (induction fs arbitrary: input vs) (auto split: sum.splits prod.splits)

lemma run_lets_bindings:
  "run_lets P pre lets input = Inr (x, rest) \<Longrightarrow>
   \<exists>new. x = pre @ new \<and> map fst new = map fst lets
     \<and> (\<forall>i < length lets. \<exists>inp r.
           eval_decode P (map_of (pre @ take i new)) (fst (snd (lets ! i))) (snd (snd (lets ! i))) inp
             = Inr (snd (new ! i), r))"
proof (induction lets arbitrary: pre input)
  case Nil
  then show ?case by simp
next
  case (Cons binding lets)
  obtain name ty e where binding: "binding = (name, ty, e)" by (cases binding)
  with Cons.prems obtain v input' where ev: "eval_decode P (map_of pre) ty e input = Inr (v, input')"
    and run: "run_lets P (pre @ [(name, v)]) lets input' = Inr (x, rest)"
    by (auto split: sum.splits)
  from Cons.IH [OF run] obtain new where x: "x = (pre @ [(name, v)]) @ new"
    and names: "map fst new = map fst lets"
    and evs: "\<forall>i < length lets. \<exists>inp r.
           eval_decode P (map_of ((pre @ [(name, v)]) @ take i new))
             (fst (snd (lets ! i))) (snd (snd (lets ! i))) inp = Inr (snd (new ! i), r)"
    by blast
  let ?new = "(name, v) # new"
  have "x = pre @ ?new" using x by simp
  moreover have "map fst ?new = map fst (binding # lets)" using names binding by simp
  moreover have "\<exists>inp r. eval_decode P (map_of (pre @ take i ?new))
             (fst (snd ((binding # lets) ! i))) (snd (snd ((binding # lets) ! i))) inp
             = Inr (snd (?new ! i), r)" if "i < length (binding # lets)" for i
  proof (cases i)
    case 0
    with ev binding show ?thesis by auto
  next
    case (Suc j)
    with that have "j < length lets" by simp
    with evs obtain inp r where
      "eval_decode P (map_of ((pre @ [(name, v)]) @ take j new))
             (fst (snd (lets ! j))) (snd (snd (lets ! j))) inp = Inr (snd (new ! j), r)"
      by blast
    with Suc show ?thesis by auto
  qed
  ultimately show ?case by blast
qed

lemma those_decode_let:
  "those (map decode_let ms) = Some lets \<Longrightarrow>
   length lets = length ms
   \<and> (\<forall>k < length ms. \<exists>e. decode_expr_of True (dimensions (ms ! k)) = Some e
          \<and> lets ! k = (membername (ms ! k), type_m (ms ! k), e))"
proof (induction ms arbitrary: lets)
  case Nil
  then show ?case by simp
next
  case (Cons m ms)
  from Cons.prems obtain binding lets' where binding: "decode_let m = Some binding"
    and lets: "lets = binding # lets'"
    and lets': "those (map decode_let ms) = Some lets'"
    by (auto split: option.splits)
  from binding obtain e where e: "decode_expr_of True (dimensions m) = Some e"
    and b: "binding = (membername m, type_m m, e)"
    by (auto simp: decode_let_def)
  from Cons.IH [OF lets'] have len: "length lets' = length ms"
    and rest: "\<forall>k < length ms. \<exists>e. decode_expr_of True (dimensions (ms ! k)) = Some e
          \<and> lets' ! k = (membername (ms ! k), type_m (ms ! k), e)"
    by auto
  have "\<exists>e. decode_expr_of True (dimensions ((m # ms) ! k)) = Some e
          \<and> lets ! k = (membername ((m # ms) ! k), type_m ((m # ms) ! k), e)"
    if "k < length (m # ms)" for k
  proof (cases k)
    case 0
    with e b lets show ?thesis by simp
  next
    case (Suc j)
    with that rest lets show ?thesis by simp
  qed
  with len lets show ?case by simp
qed

lemma lets_in_scope_nth:
  "lets_in_scope bound lets \<Longrightarrow> k < length lets \<Longrightarrow>
   set (range_names (snd (snd (lets ! k)))) \<subseteq> set bound \<union> set (map fst (take k lets))"
proof (induction lets arbitrary: bound k)
  case Nil
  then show ?case by simp
next
  case (Cons binding lets)
  obtain name ty e where binding: "binding = (name, ty, e)" by (cases binding)
  with Cons.prems(1) have here: "set (range_names e) \<subseteq> set bound"
    and rest: "lets_in_scope (bound @ [name]) lets"
    by (auto simp: list_all_iff)
  show ?case
  proof (cases k)
    case 0
    with here binding show ?thesis by simp
  next
    case (Suc j)
    with Cons.prems(2) have "j < length lets" by simp
    from Cons.IH [OF rest this] Suc binding show ?thesis by auto
  qed
qed

lemma decode_seq_nth:
  "decode_seq fs input = Inr (vs, r) \<Longrightarrow> i < length fs \<Longrightarrow>
   \<exists>inp r'. (fs ! i) inp = Inr (vs ! i, r')"
proof (induction fs arbitrary: input vs i)
  case Nil
  then show ?case by simp
next
  case (Cons f fs)
  from Cons.prems(1) obtain v mid vs' where f: "f input = Inr (v, mid)"
    and rest: "decode_seq fs mid = Inr (vs', r)" and vs: "vs = v # vs'"
    by (auto split: sum.splits prod.splits)
  show ?case
  proof (cases i)
    case 0
    with f vs show ?thesis by auto
  next
    case (Suc j)
    with Cons.prems(2) have "j < length fs" by simp
    from Cons.IH [OF rest this] Suc vs show ?thesis by simp
  qed
qed

lemma eval_decode_counts:
  "decode_expr_of q dims = Some e \<Longrightarrow>
   eval_decode P env ty e inp = Inr (v, r) \<Longrightarrow>
   (\<And>name. name \<in> set (range_names e) \<Longrightarrow> field_int P env' name = field_int P env name) \<Longrightarrow>
   decoded_counts P env' dims v"
proof (induction dims arbitrary: q e inp v r)
  case Nil
  then show ?case by (auto split: sum.splits)
next
  case (Cons d rest)
  show ?case
  proof (cases "mode d")
    case LCM_CONST
    with Cons.prems(1) obtain n where n: "loop_count (size_dim d) = Some n"
      by (auto split: option.splits)
    show ?thesis
    proof (cases "n = 0")
      case True
      with Cons.prems(1) LCM_CONST n have "e = Array_literal []" by simp
      with Cons.prems(2) have "v = Seq []" by (auto split: sum.splits)
      with LCM_CONST n True show ?thesis by simp
    next
      case False
      with Cons.prems(1) LCM_CONST n obtain el where el: "decode_expr_of True rest = Some el"
        and e: "e = Array_literal (replicate n el)"
        by auto
      from Cons.prems(2) e obtain vs where
        seq: "decode_seq (replicate n (eval_decode P env ty el)) inp = Inr (vs, r)"
        and v: "v = Seq vs"
        by (auto split: sum.splits)
      from decode_seq_length [OF seq] have len: "length vs = n" by simp
      have names: "field_int P env' name = field_int P env name" if "name \<in> set (range_names el)" for name
        using Cons.prems(3) [of name] that e False by auto
      have "decoded_counts P env' rest (vs ! i)" if "i < length vs" for i
      proof -
        from that len have "i < length (replicate n (eval_decode P env ty el))" by simp
        from decode_seq_nth [OF seq this] that len obtain inp' r' where
          "eval_decode P env ty el inp' = Inr (vs ! i, r')" by auto
        from Cons.IH [OF el this names] show ?thesis by simp
      qed
      then have "list_all (decoded_counts P env' rest) vs"
        by (simp add: list_all_length)
      with LCM_CONST n len v show ?thesis by simp
    qed
  next
    case LCM_VAR
    with Cons.prems(1) obtain body where body: "decode_expr_of False rest = Some body"
      and e: "e = Range_collect (size_dim d) body q"
      by auto
    from Cons.prems(2) e obtain n vs where n: "field_int P env (size_dim d) = Some n"
      and seq: "decode_seq (replicate (nat n) (eval_decode P env ty body)) inp = Inr (vs, r)"
      and v: "v = Seq vs"
      by (auto split: option.splits sum.splits)
    from decode_seq_length [OF seq] have len: "length vs = nat n" by simp
    from Cons.prems(3) [of "size_dim d"] e n have n': "field_int P env' (size_dim d) = Some n" by simp
    have names: "field_int P env' name = field_int P env name" if "name \<in> set (range_names body)" for name
      using Cons.prems(3) [of name] that e by auto
    have "decoded_counts P env' rest (vs ! i)" if "i < length vs" for i
    proof -
      from that len have "i < length (replicate (nat n) (eval_decode P env ty body))" by simp
      from decode_seq_nth [OF seq this] that len obtain inp' r' where
        "eval_decode P env ty body inp' = Inr (vs ! i, r')" by auto
      from Cons.IH [OF body this names] show ?thesis by simp
    qed
    then have "list_all (decoded_counts P env' rest) vs"
      by (simp add: list_all_length)
    with LCM_VAR n' len v show ?thesis by simp
  qed
qed

lemma reached_size_is_read:
  "decode_expr_of q dims = Some e \<Longrightarrow> i < length dims \<Longrightarrow> mode (dims ! i) = LCM_VAR \<Longrightarrow>
   list_all (\<lambda>dimension. mode dimension = LCM_VAR \<or> loop_count (size_dim dimension) \<noteq> Some 0) (take i dims) \<Longrightarrow>
   size_dim (dims ! i) \<in> set (range_names e)"
proof (induction dims arbitrary: q e i)
  case Nil
  then show ?case by simp
next
  case (Cons d rest)
  show ?case
  proof (cases i)
    case 0
    with Cons.prems show ?thesis by auto
  next
    case (Suc j)
    with Cons.prems have j: "j < length rest" and var: "mode (rest ! j) = LCM_VAR"
      and here: "mode d = LCM_VAR \<or> loop_count (size_dim d) \<noteq> Some 0"
      and outer: "list_all (\<lambda>dimension. mode dimension = LCM_VAR \<or> loop_count (size_dim dimension) \<noteq> Some 0) (take j rest)"
      by auto
    show ?thesis
    proof (cases "mode d")
      case LCM_VAR
      with Cons.prems(1) obtain body where body: "decode_expr_of False rest = Some body"
        and e: "e = Range_collect (size_dim d) body q"
        by auto
      from Cons.IH [OF body j var outer] e Suc show ?thesis by simp
    next
      case LCM_CONST
      with Cons.prems(1) obtain n where n: "loop_count (size_dim d) = Some n"
        by (auto split: option.splits)
      with here LCM_CONST have "n \<noteq> 0" by auto
      with Cons.prems(1) LCM_CONST n obtain el where el: "decode_expr_of True rest = Some el"
        and e: "e = Array_literal (replicate n el)"
        by auto
      from Cons.IH [OF el j var outer] e Suc \<open>n \<noteq> 0\<close> show ?thesis by auto
    qed
  qed
qed

lemma size_field_declared_before:
  assumes lets: "those (map decode_let ms) = Some lets"
    and valid: "decode_is_valid_rust lets"
    and k: "k < length ms"
    and reach: "reaches_dimension (ms ! k) i"
    and var: "mode (dimensions (ms ! k) ! i) = LCM_VAR"
  shows "\<exists>j<k. membername (ms ! j) = size_dim (dimensions (ms ! k) ! i)"
proof -
  from those_decode_let [OF lets] have len: "length lets = length ms"
    and nth: "\<forall>k < length ms. \<exists>e. decode_expr_of True (dimensions (ms ! k)) = Some e
          \<and> lets ! k = (membername (ms ! k), type_m (ms ! k), e)"
    by auto
  have names: "map fst lets = map membername ms"
    using len nth by (auto simp: list_eq_iff_nth_eq)
  from nth k obtain e where e: "decode_expr_of True (dimensions (ms ! k)) = Some e"
    and letk: "lets ! k = (membername (ms ! k), type_m (ms ! k), e)"
    by blast
  from reach have i: "i < length (dimensions (ms ! k))"
    and outer: "list_all (\<lambda>dimension. mode dimension = LCM_VAR \<or> loop_count (size_dim dimension) \<noteq> Some 0)
                  (take i (dimensions (ms ! k)))"
    by (simp_all add: reaches_dimension_def)
  from reached_size_is_read [OF e i var outer]
  have read: "size_dim (dimensions (ms ! k) ! i) \<in> set (range_names e)" .
  from valid have scope: "lets_in_scope [] lets"
    by (simp add: decode_is_valid_rust_def)
  from lets_in_scope_nth [OF scope, of k] k len letk read
  have "size_dim (dimensions (ms ! k) ! i) \<in> set (map fst (take k lets))" by auto
  then have "size_dim (dimensions (ms ! k) ! i) \<in> set (take k (map fst lets))" by (simp add: take_map)
  then obtain j where j: "j < k" and jn: "map fst lets ! j = size_dim (dimensions (ms ! k) ! i)"
    using k len by (auto simp: in_set_conv_nth)
  with names k show ?thesis by auto
qed

lemma decoded_member_counts:
  assumes lets: "those (map decode_let ms) = Some lets"
    and valid: "decode_is_valid_rust lets"
    and run: "run_lets P [] lets input = Inr (x, rest)"
    and k: "k < length ms"
  shows "map fst x = map membername ms
     \<and> decoded_counts P (map_of x) (dimensions (ms ! k)) (snd (x ! k))"
proof -
  from those_decode_let [OF lets] have len: "length lets = length ms"
    and nth: "\<forall>k < length ms. \<exists>e. decode_expr_of True (dimensions (ms ! k)) = Some e
          \<and> lets ! k = (membername (ms ! k), type_m (ms ! k), e)"
    by auto
  have names: "map fst lets = map membername ms"
    using len nth by (auto simp: list_eq_iff_nth_eq)
  from run_lets_bindings [OF run] have xnames: "map fst x = map fst lets"
    and evs: "\<forall>i < length lets. \<exists>inp r.
           eval_decode P (map_of (take i x)) (fst (snd (lets ! i))) (snd (snd (lets ! i))) inp
             = Inr (snd (x ! i), r)"
    by auto
  from nth k obtain e where e: "decode_expr_of True (dimensions (ms ! k)) = Some e"
    and letk: "lets ! k = (membername (ms ! k), type_m (ms ! k), e)"
    by blast
  from evs k len letk obtain inp r where
    ev: "eval_decode P (map_of (take k x)) (type_m (ms ! k)) e inp = Inr (snd (x ! k), r)"
    by (metis fst_conv snd_conv)
  from valid have scope: "lets_in_scope [] lets"
    by (simp add: decode_is_valid_rust_def)
  from lets_in_scope_nth [OF scope, of k] k len letk
  have bound: "set (range_names e) \<subseteq> set (map fst (take k lets))" by auto
  have prefix: "map fst (take k x) = map fst (take k lets)"
    by (metis take_map xnames)
  have same: "field_int P (map_of x) name = field_int P (map_of (take k x)) name"
    if "name \<in> set (range_names e)" for name
  proof -
    from that bound prefix have "name \<in> set (map fst (take k x))" by auto
    from map_of_prefix [OF this, of "drop k x"] show ?thesis
      by (simp add: field_int_def)
  qed
  from eval_decode_counts [OF e ev same]
  have "decoded_counts P (map_of x) (dimensions (ms ! k)) (snd (x ! k))" .
  with xnames names show ?thesis by simp
qed

text \<open>
  Claim C2, as amended. The emitted decode routine binds the members strictly in
  declaration order and reorders nothing. Take any member and any of its variable
  dimensions, at any nesting depth, that the emitted expression reaches (no constant
  dimension of count zero encloses it). Whenever the routine returns a value, the fields
  are the members in declaration order, the size field that dimension names is declared,
  and so was decoded, before the member, and at every depth of the decoded member a
  container of a variable dimension holds exactly as many elements as the previously
  decoded size field says (none when it is negative) and a container of a constant
  dimension its constant count. Where the size field is not declared before the member,
  the routine reads a name that is not bound yet: on every input it yields no value, the
  text being no valid Rust (or the generator having no defined output).
\<close>

theorem decode_follows_declaration_order:
  assumes k: "k < length (members lcm_struct)"
    and reach: "reaches_dimension (members lcm_struct ! k) i"
    and var: "mode (dimensions (members lcm_struct ! k) ! i) = LCM_VAR"
  shows "(decode P lcm_struct input = Inr (x, rest) \<longrightarrow>
            map fst x = map membername (members lcm_struct)
          \<and> (\<exists>j<k. membername (members lcm_struct ! j)
                      = size_dim (dimensions (members lcm_struct ! k) ! i))
          \<and> decoded_counts P (map_of x) (dimensions (members lcm_struct ! k)) (snd (x ! k)))
       \<and> ((\<forall>j<k. membername (members lcm_struct ! j)
                      \<noteq> size_dim (dimensions (members lcm_struct ! k) ! i)) \<longrightarrow>
            decode P lcm_struct input = Inl Not_valid_rust
            \<or> decode P lcm_struct input = Inl Generator_undefined)"
proof (intro conjI impI)
  assume dec: "decode P lcm_struct input = Inr (x, rest)"
  then obtain lets where lets: "those (map decode_let (members lcm_struct)) = Some lets"
    and valid: "decode_is_valid_rust lets"
    and run: "run_lets P [] lets input = Inr (x, rest)"
    by (auto simp: decode_def decode_lets_def split: option.splits if_splits)
  from decoded_member_counts [OF lets valid run k]
  show "map fst x = map membername (members lcm_struct)"
    and "decoded_counts P (map_of x) (dimensions (members lcm_struct ! k)) (snd (x ! k))"
    by simp_all
  from size_field_declared_before [OF lets valid k reach var]
  show "\<exists>j<k. membername (members lcm_struct ! j)
                = size_dim (dimensions (members lcm_struct ! k) ! i)" .
next
  assume later: "\<forall>j<k. membername (members lcm_struct ! j)
                      \<noteq> size_dim (dimensions (members lcm_struct ! k) ! i)"
  show "decode P lcm_struct input = Inl Not_valid_rust
        \<or> decode P lcm_struct input = Inl Generator_undefined"
  proof (cases "those (map decode_let (members lcm_struct))")
    case None
    then show ?thesis by (simp add: decode_def decode_lets_def)
  next
    case (Some lets)
    have "\<not> decode_is_valid_rust lets"
    proof
      assume "decode_is_valid_rust lets"
      from size_field_declared_before [OF Some this k reach var] later show False by blast
    qed
    with Some show ?thesis by (simp add: decode_def decode_lets_def)
  qed
qed

text \<open>
  The theorem at two structs. In \<open>grid_t\<close> the size field \<open>n\<close> is declared before the
  member \<open>cells\<close>, whose inner dimension is variable: from the input 2, 5, 6, 7, 8, 1, 2,
  3, 4, 9 both inner sequences of \<open>cells\<close> receive two elements. In
  \<open>cells_out_of_order_t\<close> the same member is declared before \<open>n\<close>: no input is decoded.
\<close>

theorem decode_follows_declaration_order_witness:
  "decode int8_impls grid_t [2, 5, 6, 7, 8, 1, 2, 3, 4, 9]
     = Inr ([(''n'', Leaf 2),
             (''cells'', Seq [Seq [Leaf 5, Leaf 6], Seq [Leaf 7, Leaf 8]]),
             (''rows'', Seq [Seq [Leaf 1, Leaf 2], Seq [Leaf 3, Leaf 4]])], [9])
   \<and> reaches_dimension (members grid_t ! 1) 1
   \<and> mode (dimensions (members grid_t ! 1) ! 1) = LCM_VAR
   \<and> (\<exists>j<1. membername (members grid_t ! j) = ''n'')
   \<and> decoded_counts int8_impls
        (map_of [(''n'', Leaf 2),
                 (''cells'', Seq [Seq [Leaf 5, Leaf 6], Seq [Leaf 7, Leaf 8]]),
                 (''rows'', Seq [Seq [Leaf 1, Leaf 2], Seq [Leaf 3, Leaf 4]])])
        [\<lparr>mode = LCM_CONST, size_dim = ''2''\<rparr>, \<lparr>mode = LCM_VAR, size_dim = ''n''\<rparr>]
        (Seq [Seq [Leaf 5, Leaf 6], Seq [Leaf 7, Leaf 8]])
   \<and> reaches_dimension (members cells_out_of_order_t ! 0) 1
   \<and> (\<forall>input. decode int8_impls cells_out_of_order_t input = Inl Not_valid_rust)"
proof -
  let ?x = "[(''n'', Leaf 2),
             (''cells'', Seq [Seq [Leaf 5, Leaf 6], Seq [Leaf 7, Leaf 8]]),
             (''rows'', Seq [Seq [Leaf 1, Leaf 2], Seq [Leaf 3, Leaf (4 :: byte)]])]"
  have dec: "decode int8_impls grid_t [2, 5, 6, 7, 8, 1, 2, 3, 4, 9] = Inr (?x, [9])"
    by (simp add: eval_defs eval_nat_numeral)
  have k: "1 < length (members grid_t)" by (simp add: grid_t_def)
  have reach: "reaches_dimension (members grid_t ! 1) 1"
    by (simp add: eval_defs)
  have var: "mode (dimensions (members grid_t ! 1) ! 1) = LCM_VAR"
    by (simp add: grid_t_def)
  have k': "0 < length (members cells_out_of_order_t)" by (simp add: cells_out_of_order_t_def)
  have reach': "reaches_dimension (members cells_out_of_order_t ! 0) 1"
    by (simp add: eval_defs)
  have var': "mode (dimensions (members cells_out_of_order_t ! 0) ! 1) = LCM_VAR"
    by (simp add: cells_out_of_order_t_def)
  have undefined: "decode int8_impls cells_out_of_order_t input \<noteq> Inl Generator_undefined" for input
    by (simp add: eval_defs eval_nat_numeral)
  have later: "decode int8_impls cells_out_of_order_t input = Inl Not_valid_rust" for input
    using decode_follows_declaration_order [OF k' reach' var', of int8_impls input] undefined [of input]
    by simp
  from decode_follows_declaration_order [OF k reach var, of int8_impls "[2, 5, 6, 7, 8, 1, 2, 3, 4, 9]" ?x "[9]"]
    dec reach var reach' later
  show ?thesis by (simp add: grid_t_def)
qed

text \<open>
  An inner dimension that is not reached: below a constant dimension of count zero the
  emitted expression is the empty array literal, which reads no size field, so that the
  place where the size field is declared plays no part.
\<close>

lemma decode_empty_array_reads_no_size:
  "\<not> reaches_dimension (members empty_cells_t ! 0) 1
   \<and> decode int8_impls empty_cells_t [3, 9]
       = Inr ([(''cells'', Seq []), (''n'', Leaf 3)], [9])"
  by (simp add: eval_defs eval_nat_numeral)

text \<open>
  Claim C2 as stated fails on the scenario struct with its members declared out of
  dependency order: the binding of \<^verbatim>\<open>values\<close>, whose range reads \<^verbatim>\<open>count\<close>, is emitted
  before the binding of \<^verbatim>\<open>count\<close> (see also \<open>emit_decode_reading_out_of_order\<close>), so the
  size field is not decoded first, and the routine is not valid Rust on any input.
\<close>

theorem decode_out_of_order_not_reordered:
  "decode_lets reading_out_of_order_t
     = Some [(''values'', int8_t, Range_collect ''count'' (Decode_leaf False) True),
             (''count'', int8_t, Decode_leaf True)]
   \<and> (\<forall>input. decode int8_impls reading_out_of_order_t input = Inl Not_valid_rust)"
  by (simp add: demo_defs)

end
